theory Spec2Isabelle
  imports Main "HOL-Library.Sublist" "HOL-Library.AList"
begin

section \<open>JavaScript values\<close>

text \<open>
  The hub passes payloads of TypeScript type \<open>any\<close>. The fragment of the value universe
  the hub inspects is: the primitives, function objects and plain objects. An object is
  its list of own properties in creation order; a function object has an identity and
  own properties as well. Numbers are restricted to integers.

  A function identity is either a function of the application (\<open>UserFn\<close>) or the closure
  that \<open>_onMessage\<close> attaches to an inbound request
  (\<open>(data) => this.sendMessage(target, this._buildProgressMessage(data, msg))\<close>),
  named by the request it reports on.
\<close>

datatype fn_id = UserFn nat | ProgressSink string int

datatype jsval =
    VUndefined
  | VNull
  | VBool bool
  | VNum int
  | VStr string
  | VFun fn_id "(string \<times> jsval) list"
  | VObj "(string \<times> jsval) list"

text \<open>JavaScript truthiness (\<open>!v\<close> is its negation).\<close>

fun truthy :: "jsval \<Rightarrow> bool" where
  "truthy VUndefined = False"
| "truthy VNull = False"
| "truthy (VBool b) = b"
| "truthy (VNum n) = (n \<noteq> 0)"
| "truthy (VStr s) = (s \<noteq> [])"
| "truthy (VFun f ps) = True"
| "truthy (VObj ps) = True"

text \<open>\<open>typeof v === 'function'\<close>.\<close>

fun is_function :: "jsval \<Rightarrow> bool" where
  "is_function (VFun f ps) = True"
| "is_function v = False"

text \<open>The own properties of an object or function object; \<open>None\<close> for a primitive.\<close>

fun props :: "jsval \<Rightarrow> (string \<times> jsval) list option" where
  "props (VFun f ps) = Some ps"
| "props (VObj ps) = Some ps"
| "props v = None"

text \<open>
  \<open>v.k\<close>, for a \<open>k\<close> that no built-in prototype defines (the hub only reads
  \<open>onprogress\<close>): an own property or \<open>undefined\<close>. The source reads it behind a
  truthiness guard only, so the \<open>TypeError\<close> of \<open>null.k\<close> is never reached.
\<close>

definition get_prop :: "jsval \<Rightarrow> string \<Rightarrow> jsval" where
  "get_prop v k =
     (case props v of
        None \<Rightarrow> VUndefined
      | Some ps \<Rightarrow> (case map_of ps k of None \<Rightarrow> VUndefined | Some x \<Rightarrow> x))"

text \<open>
  \<open>v.k = x\<close> in strict mode (a TypeScript module is strict code): on an object the
  property is overwritten in place or appended; on a primitive the assignment throws a
  \<open>TypeError\<close>, here \<open>None\<close>.
\<close>

fun set_prop :: "jsval \<Rightarrow> string \<Rightarrow> jsval \<Rightarrow> jsval option" where
  "set_prop (VObj ps) k x = Some (VObj (AList.update k x ps))"
| "set_prop (VFun f ps) k x = Some (VFun f (AList.update k x ps))"
| "set_prop v k x = None"

text \<open>An \<open>Error\<close> object, by its name and message.\<close>

definition js_error :: "string \<Rightarrow> string \<Rightarrow> jsval" where
  "js_error name msg = VObj [(''name'', VStr name), (''message'', VStr msg)]"

text \<open>The state of a promise.\<close>

datatype 'a promise = Unsettled | Resolved 'a | Rejected jsval

section \<open>Envelopes\<close>

text \<open>
  \<open>IRequest\<close>, \<open>IResponse\<close> and \<open>IProgress\<close> are structural types over one kind of
  object, told apart by the \<open>type\<close> tag, and \<open>_onMessage\<close> receives \<open>any\<close>. An
  envelope is therefore one record with the fields of all three; \<open>toInstance\<close> is
  optional as in \<open>IRequest\<close>; an absent \<open>progress\<close> or \<open>isSuccess\<close> is \<open>False\<close>, an
  absent \<open>data\<close> is \<open>VUndefined\<close>, an absent \<open>fromInstance\<close> the empty string (all
  read by truthiness only).
\<close>

datatype msg_type = TRequest | TResponse | TProgress | TOther

record envelope =
  fromInstance :: string
  toInstance :: "string option"
  messageID :: int
  msg_type :: msg_type
  methodName :: string
  args :: "jsval list"
  progress :: bool
  isSuccess :: bool
  data :: jsval

text \<open>The object \<open>{ methodName }\<close> that \<open>_buildReqMessage\<close> starts from for a string.\<close>

definition basicCfg :: "string \<Rightarrow> envelope" where
  "basicCfg m =
     \<lparr>fromInstance = [], toInstance = None, messageID = 0, msg_type = TOther,
      methodName = m, args = [], progress = False, isSuccess = False, data = VUndefined\<rparr>"

text \<open>
  Request objects have an identity: \<open>_buildReqMessage\<close> writes into the configuration
  object it is given and returns that same object, and the callback of \<open>_emit\<close> keeps
  a reference to it. \<open>Config r\<close> is the \<open>r\<close>-th object of the application,
  \<open>Created n\<close> the \<open>n\<close>-th object \<open>{ methodName }\<close> that \<open>_buildReqMessage\<close> made
  for a string.
\<close>

datatype obj_ref = Config nat | Created nat

text \<open>
  The second parameter of \<open>_emit\<close>: \<open>string | IMethodNameConfig\<close>.
  \<open>MethodConfig r c\<close> is the application's object \<open>r\<close>, whose fields hold \<open>c\<close> when the
  call is made. A configuration object may carry any further keys
  (\<open>[k: string]: any\<close>); the ones that are envelope fields are kept.
\<close>

datatype method_arg = MethodName string | MethodConfig nat envelope

section \<open>The hub\<close>

text \<open>
  A handler is a function of the application. What the hub observes of a call
  \<open>method.apply(null, args)\<close> is: the data the handler passes to the progress closure
  attached to its first argument, in order, and how the returned promise settles (a
  synchronous throw and an asynchronous rejection are both caught by the same
  \<open>try\<close>/\<open>await\<close>). The functions of the application (handlers and \<open>onprogress\<close>
  callbacks) do not call the hub while they run, and the delivery of one message runs
  to its end before the next call on the hub.
\<close>

type_synonym handler = "jsval list \<Rightarrow> jsval list \<times> jsval promise"

text \<open>\<open>IHandlerMap | Function\<close>: a catch-all function or a method map (own keys in order).\<close>

datatype registration = HandlerFn handler | HandlerMap "(string \<times> handler) list"

text \<open>
  An entry of \<open>_responseCallbacks\<close> is the closure \<open>callback\<close> of \<open>_emit\<close>; it captures
  \<open>reqMsg\<close> (a reference to the request object) and the \<open>resolve\<close>/\<open>reject\<close> pair of
  the promise (here the index of the promise among those the hub created).
  \<open>_listenResponse\<close> also receives \<open>target\<close>; the field \<open>pc_target\<close> records it, and as
  in the source nothing reads it.
\<close>

record pending =
  pc_target :: string
  pc_reqMsg :: obj_ref
  pc_promise :: nat

text \<open>
  The fields of \<open>AbstractHub\<close> (\<open>hub_messageID\<close> is \<open>_messageID\<close>), followed by what
  the hub does to its environment: \<open>outbox\<close> lists the calls of the abstract
  \<open>sendMessage(target, msg)\<close> with the message as it is at the call, \<open>promises\<close> the
  promises returned by \<open>_emit\<close>, \<open>progressCalls\<close> the invocations \<open>onprogress(data)\<close> of
  the caller's function, each oldest first. \<open>store\<close> holds the present contents of the
  request objects and \<open>created\<close> counts those \<open>_buildReqMessage\<close> made itself. The
  hub reads an object only after \<open>_buildReqMessage\<close> has written it; before that the
  store shows it empty. The application writes to a configuration object only before it
  passes it to \<open>_emit\<close>, and does not write to the objects in \<open>args\<close> afterwards.
\<close>

record hub =
  instanceID :: string
  eventHandlerMap :: "(string \<times> registration) list"
  responseCallbacks :: "pending list"
  hub_messageID :: int
  outbox :: "(string \<times> envelope) list"
  promises :: "jsval promise list"
  progressCalls :: "(jsval \<times> jsval) list"
  store :: "obj_ref \<Rightarrow> envelope"
  created :: nat

text \<open>The constructor; \<open>generateInstanceID\<close> is random, so the identifier is a parameter.\<close>

definition new_hub :: "string \<Rightarrow> hub" where
  "new_hub iid =
     \<lparr>instanceID = iid, eventHandlerMap = [], responseCallbacks = [], hub_messageID = 0,
      outbox = [], promises = [], progressCalls = [], store = (\<lambda>r. basicCfg []),
      created = 0\<rparr>"

definition sendMessage :: "string \<Rightarrow> envelope \<Rightarrow> hub \<Rightarrow> hub" where
  "sendMessage target msg h = h\<lparr>outbox := outbox h @ [(target, msg)]\<rparr>"

subsection \<open>Building a request\<close>

text \<open>
  \<open>++this._messageID\<close> on a JavaScript number. The counter starts at 0 and is only ever
  incremented, so it is a non-negative integer; up to \<open>2^53\<close> the sum is exact, and at
  \<open>2^53\<close> the double nearest to \<open>2^53 + 1\<close> is \<open>2^53\<close> again (ties to even).
\<close>

definition js_increment :: "int \<Rightarrow> int" where
  "js_increment n = (if n < 2 ^ 53 then n + 1 else n)"

text \<open>
  \<open>_buildReqMessage\<close>: \<open>basicCfg\<close> is a new object \<open>{ methodName }\<close> for a string and the
  caller's own object otherwise; \<open>Object.assign(basicCfg, {...})\<close> overwrites four of its
  fields in place and returns the object itself.
\<close>

definition buildReqMessage :: "method_arg \<Rightarrow> jsval list \<Rightarrow> hub \<Rightarrow> obj_ref \<times> hub" where
  "buildReqMessage mn as h =
     (let (r, cfg, h0) =
            (case mn of
               MethodName m \<Rightarrow> (Created (created h), basicCfg m, h\<lparr>created := Suc (created h)\<rparr>)
             | MethodConfig k c \<Rightarrow> (Config k, c, h));
          mid = js_increment (hub_messageID h0)
      in (r,
          h0\<lparr>hub_messageID := mid,
             store := (store h0)
               (r := cfg\<lparr>fromInstance := instanceID h0, messageID := mid, msg_type := TRequest,
                        args := as\<rparr>)\<rparr>))"

text \<open>
  \<open>_normalizeRequest\<close>, on the contents of the request object: the result is what is
  sent, the request itself or a changed copy (the object is not written to).
  \<open>Object.assign({}, options)\<close> is a plain object with the own properties of \<open>options\<close>;
  \<open>delete\<close> removes the key.
\<close>

definition normalizeRequest :: "string \<Rightarrow> envelope \<Rightarrow> envelope" where
  "normalizeRequest target msg =
     (if target = ''*'' then msg
      else case args msg of
        [] \<Rightarrow> msg
      | options # rest \<Rightarrow>
          if \<not> truthy options \<or> \<not> is_function (get_prop options ''onprogress'') then msg
          else case props options of
            None \<Rightarrow> msg
          | Some ps \<Rightarrow>
              msg\<lparr>progress := True,
                  args := list_update (args msg) 0 (VObj (AList.delete ''onprogress'' ps))\<rparr>)"

text \<open>
  \<open>_emit\<close>: build the request, send its normalized form, create the promise and
  register the callback (\<open>_listenResponse\<close> pushes it). The result is the index of the
  new promise.
\<close>

definition emit :: "string \<Rightarrow> method_arg \<Rightarrow> jsval list \<Rightarrow> hub \<Rightarrow> nat \<times> hub" where
  "emit target mn as h =
     (let (reqMsg, h1) = buildReqMessage mn as h;
          h2 = sendMessage target (normalizeRequest target (store h1 reqMsg)) h1;
          p = length (promises h2)
      in (p, h2\<lparr>promises := promises h2 @ [Unsettled],
                 responseCallbacks := responseCallbacks h2 @
                   [\<lparr>pc_target = target, pc_reqMsg = reqMsg, pc_promise = p\<rparr>]\<rparr>))"

subsection \<open>Validity predicates\<close>

definition isRequest :: "hub \<Rightarrow> envelope \<Rightarrow> bool" where
  "isRequest h reqMsg \<longleftrightarrow>
     fromInstance reqMsg \<noteq> [] \<and>
     fromInstance reqMsg \<noteq> instanceID h \<and>
     (case toInstance reqMsg of None \<Rightarrow> True | Some t \<Rightarrow> t = [] \<or> t = instanceID h) \<and>
     messageID reqMsg \<noteq> 0 \<and>
     msg_type reqMsg = TRequest"

definition isResponse :: "hub \<Rightarrow> envelope \<Rightarrow> envelope \<Rightarrow> bool" where
  "isResponse h reqMsg respMsg \<longleftrightarrow>
     toInstance respMsg = Some (instanceID h) \<and>
     toInstance respMsg = Some (fromInstance reqMsg) \<and>
     messageID respMsg = messageID reqMsg \<and>
     msg_type respMsg = TResponse"

definition isProgress :: "hub \<Rightarrow> envelope \<Rightarrow> envelope \<Rightarrow> bool" where
  "isProgress h reqMsg respMsg \<longleftrightarrow>
     toInstance respMsg = Some (instanceID h) \<and>
     toInstance respMsg = Some (fromInstance reqMsg) \<and>
     messageID respMsg = messageID reqMsg \<and>
     msg_type respMsg = TProgress"

definition buildRespMessage :: "jsval \<Rightarrow> envelope \<Rightarrow> bool \<Rightarrow> hub \<Rightarrow> envelope" where
  "buildRespMessage d reqMsg ok h =
     \<lparr>fromInstance = instanceID h, toInstance = Some (fromInstance reqMsg),
      messageID = messageID reqMsg, msg_type = TResponse, methodName = [], args = [],
      progress = False, isSuccess = ok, data = d\<rparr>"

definition buildProgressMessage :: "jsval \<Rightarrow> envelope \<Rightarrow> hub \<Rightarrow> envelope" where
  "buildProgressMessage d reqMsg h =
     \<lparr>fromInstance = instanceID h, toInstance = Some (fromInstance reqMsg),
      messageID = messageID reqMsg, msg_type = TProgress, methodName = [], args = [],
      progress = False, isSuccess = False, data = d\<rparr>"

subsection \<open>The response callback of \<open>_emit\<close>\<close>

text \<open>\<open>resolve\<close> and \<open>reject\<close>: the first call settles the promise, a later one does nothing.\<close>

definition settle :: "nat \<Rightarrow> jsval promise \<Rightarrow> hub \<Rightarrow> hub" where
  "settle p r h =
     (if p < length (promises h) \<and> promises h ! p = Unsettled
      then h\<lparr>promises := list_update (promises h) p r\<rparr> else h)"

text \<open>
  The closure \<open>callback\<close>: 0 for no match, 1 for done, 2 for to be continued. It reads
  the request object as it is when the message arrives. The call of \<open>onprogress\<close> sits
  in a \<open>try\<close> whose \<open>catch\<close> only logs, so the invocation is recorded and nothing else
  of the hub changes.
\<close>

definition callback :: "pending \<Rightarrow> envelope \<Rightarrow> hub \<Rightarrow> int \<times> hub" where
  "callback p response h =
     (let reqMsg = store h (pc_reqMsg p) in
      if \<not> isResponse h reqMsg response then
        if \<not> isProgress h reqMsg response then (0, h)
        else
          (2, case args reqMsg of
                [] \<Rightarrow> h
              | a # rest \<Rightarrow>
                  if truthy a \<and> is_function (get_prop a ''onprogress'')
                  then h\<lparr>progressCalls := progressCalls h @
                            [(get_prop a ''onprogress'', data response)]\<rparr>
                  else h)
      else
        (1, settle (pc_promise p)
              (if isSuccess response then Resolved (data response)
               else Rejected (data response)) h))"

subsection \<open>Inbound dispatch\<close>

text \<open>
  \<open>this._responseCallbacks.findIndex(fn => { ret = fn(msg); return Boolean(ret) })\<close>:
  the callbacks run in order from index \<open>i\<close> on, each on the state its predecessors
  left; the scan stops at the first truthy result and yields its index and \<open>ret\<close>.
\<close>

fun findIndex_callbacks ::
  "pending list \<Rightarrow> envelope \<Rightarrow> nat \<Rightarrow> hub \<Rightarrow> (nat \<times> int) option \<times> hub" where
  "findIndex_callbacks [] msg i h = (None, h)"
| "findIndex_callbacks (p # ps) msg i h =
     (let (ret, h') = callback p msg h
      in if ret \<noteq> 0 then (Some (i, ret), h') else findIndex_callbacks ps msg (Suc i) h')"

text \<open>\<open>xs.splice(i, 1)\<close>.\<close>

definition splice1 :: "nat \<Rightarrow> 'a list \<Rightarrow> 'a list" where
  "splice1 i xs = take i xs @ drop (Suc i) xs"

text \<open>\<open>xs.findIndex(P)\<close> and \<open>xs.find(P)\<close> for a predicate without effects.\<close>

fun findIndex :: "('a \<Rightarrow> bool) \<Rightarrow> 'a list \<Rightarrow> nat option" where
  "findIndex P [] = None"
| "findIndex P (x # xs) = (if P x then Some 0 else map_option Suc (findIndex P xs))"

text \<open>
  \<open>handlerMap[methodName]\<close> on a method map: an own property, or else what every plain
  object inherits (\<open>toString\<close>, \<open>constructor\<close>, ...). The inherited functions belong
  to the JavaScript environment and are a parameter.
\<close>

definition get_method ::
  "(string \<Rightarrow> handler option) \<Rightarrow> (string \<times> handler) list \<Rightarrow> string \<Rightarrow> handler option" where
  "get_method inherited hm m = (case map_of hm m of Some f \<Rightarrow> Some f | None \<Rightarrow> inherited m)"

text \<open>
  \<open>_runMsgCallback\<close>, in the order of its statements: \<open>matchedMap\<close> (the registration
  of the target, or else the first registration when it is the wildcard's), then the
  method and its arguments, then the call. The result is the progress data the handler
  produced and the outcome of the \<open>async\<close> function: \<open>Some (Inr r)\<close> when it returns the
  response \<open>r\<close>, \<open>Some (Inl r)\<close> when it throws \<open>r\<close>, \<open>None\<close> when the handler's
  promise never settles.
\<close>

definition matchedMap :: "string \<Rightarrow> hub \<Rightarrow> (string \<times> registration) option" where
  "matchedMap target h =
     (case find (\<lambda>wm. fst wm = target) (eventHandlerMap h) of
        Some wm \<Rightarrow> Some wm
      | None \<Rightarrow>
          (case eventHandlerMap h of
             [] \<Rightarrow> None
           | wm0 # rest \<Rightarrow> if fst wm0 = ''*'' then Some wm0 else None))"

definition resolve_method ::
  "(string \<Rightarrow> handler option) \<Rightarrow> (string \<times> registration) option \<Rightarrow> envelope \<Rightarrow>
     handler option \<times> jsval list" where
  "resolve_method inherited mm reqMsg =
     (case mm of
        None \<Rightarrow> (None, args reqMsg)
      | Some (t, HandlerFn f) \<Rightarrow> (Some f, VStr (methodName reqMsg) # args reqMsg)
      | Some (t, HandlerMap hm) \<Rightarrow> (get_method inherited hm (methodName reqMsg), args reqMsg))"

definition runMsgCallback ::
  "(string \<Rightarrow> handler option) \<Rightarrow> string \<Rightarrow> envelope \<Rightarrow> hub \<Rightarrow>
     jsval list \<times> (envelope + envelope) option" where
  "runMsgCallback inherited target reqMsg h =
     (case resolve_method inherited (matchedMap target h) reqMsg of
        (None, as) \<Rightarrow>
          ([], Some (Inl (buildRespMessage
                 (js_error ''Error''
                    (''[MessageHub] no corresponding handler found for '' @ methodName reqMsg))
                 reqMsg False h)))
      | (Some method, as) \<Rightarrow>
          (case method as of
             (ds, Resolved d) \<Rightarrow> (ds, Some (Inr (buildRespMessage d reqMsg True h)))
           | (ds, Rejected e) \<Rightarrow> (ds, Some (Inl (buildRespMessage e reqMsg False h)))
           | (ds, Unsettled) \<Rightarrow> (ds, None)))"

text \<open>
  The start of the request branch of \<open>_onMessage\<close>:
  \<open>if (msg.progress && msg.args[0]) { msg.args[0].onprogress = ... }\<close>. The result is
  the request as the handler will see it and whether the closure was attached, or
  \<open>None\<close> when the assignment throws.
\<close>

definition attach_onprogress :: "envelope \<Rightarrow> (envelope \<times> bool) option" where
  "attach_onprogress msg =
     (case args msg of
        [] \<Rightarrow> Some (msg, False)
      | a # rest \<Rightarrow>
          if progress msg \<and> truthy a then
            (case set_prop a ''onprogress''
                    (VFun (ProgressSink (fromInstance msg) (messageID msg)) []) of
               None \<Rightarrow> None
             | Some a' \<Rightarrow> Some (msg\<lparr>args := a' # rest\<rparr>, True))
          else Some (msg, False))"

text \<open>
  \<open>_onMessage(target, msg)\<close>; a falsy \<open>msg\<close> is \<open>None\<close>. The first component is the
  state of the promise the \<open>async\<close> function returns.
\<close>

definition onMessage ::
  "(string \<Rightarrow> handler option) \<Rightarrow> string \<Rightarrow> envelope option \<Rightarrow> hub \<Rightarrow> unit promise \<times> hub" where
  "onMessage inherited target msg_opt h =
     (case msg_opt of
        None \<Rightarrow> (Resolved (), h)
      | Some msg \<Rightarrow>
          if \<not> isRequest h msg then
            (case findIndex_callbacks (responseCallbacks h) msg 0 h of
               (None, h') \<Rightarrow> (Resolved (), h')
             | (Some (idx, ret), h') \<Rightarrow>
                 if ret > 1 then (Resolved (), h')
                 else (Resolved (),
                       h'\<lparr>responseCallbacks := splice1 idx (responseCallbacks h')\<rparr>))
          else
            (case attach_onprogress msg of
               None \<Rightarrow>
                 (Rejected (js_error ''TypeError'' ''Cannot create property onprogress''), h)
             | Some (msg', attached) \<Rightarrow>
                 (case runMsgCallback inherited target msg' h of
                    (ds, r) \<Rightarrow>
                      let h1 = fold (\<lambda>d. sendMessage target (buildProgressMessage d msg' h))
                                 (if attached then ds else []) h
                      in (case r of
                            None \<Rightarrow> (Unsettled, h1)
                          | Some (Inl response) \<Rightarrow> (Resolved (), sendMessage target response h1)
                          | Some (Inr response) \<Rightarrow> (Resolved (), sendMessage target response h1)))))"

subsection \<open>Registering and removing handlers\<close>

text \<open>The two overloads of \<open>_on\<close>: a function or a map, or a method name with its handler.\<close>

datatype on_arg = OnHandlers registration | OnMethod string handler

text \<open>\<open>Object.assign({}, a, b)\<close> on method maps.\<close>

definition object_assign :: "('k \<times> 'v) list \<Rightarrow> ('k \<times> 'v) list \<Rightarrow> ('k \<times> 'v) list" where
  "object_assign a b = fold (\<lambda>(k, v). AList.update k v) b a"

definition on :: "string \<Rightarrow> on_arg \<Rightarrow> hub \<Rightarrow> hub" where
  "on target a h =
     (let handlerResult =
            (case a of OnMethod m f \<Rightarrow> HandlerMap [(m, f)] | OnHandlers r \<Rightarrow> r)
      in case findIndex (\<lambda>pair. fst pair = target) (eventHandlerMap h) of
           Some i \<Rightarrow>
             (let merged =
                (case snd (eventHandlerMap h ! i) of
                   HandlerFn f \<Rightarrow> handlerResult
                 | HandlerMap existingMap \<Rightarrow>
                     (case handlerResult of
                        HandlerFn g \<Rightarrow> handlerResult
                      | HandlerMap new \<Rightarrow> HandlerMap (object_assign existingMap new)))
              in h\<lparr>eventHandlerMap := list_update (eventHandlerMap h) i (target, merged)\<rparr>)
         | None \<Rightarrow>
             if target = ''*''
             then h\<lparr>eventHandlerMap := (target, handlerResult) # eventHandlerMap h\<rparr>
             else h\<lparr>eventHandlerMap := eventHandlerMap h @ [(target, handlerResult)]\<rparr>)"

text \<open>
  \<open>_off(target, methodName?)\<close>; an omitted \<open>methodName\<close> is \<open>None\<close>, and
  \<open>!methodName\<close> also holds for the empty string.
\<close>

definition off :: "string \<Rightarrow> string option \<Rightarrow> hub \<Rightarrow> hub" where
  "off target mn h =
     (case findIndex (\<lambda>pair. fst pair = target) (eventHandlerMap h) of
        None \<Rightarrow> h
      | Some index \<Rightarrow>
          (case mn of
             None \<Rightarrow> h\<lparr>eventHandlerMap := splice1 index (eventHandlerMap h)\<rparr>
           | Some m \<Rightarrow>
               if m = [] then h\<lparr>eventHandlerMap := splice1 index (eventHandlerMap h)\<rparr>
               else
                 (case snd (eventHandlerMap h ! index) of
                    HandlerFn f \<Rightarrow> h
                  | HandlerMap handlerMap \<Rightarrow>
                      (let handlerMap' = AList.delete m handlerMap
                       in if handlerMap' = []
                          then h\<lparr>eventHandlerMap := splice1 index (eventHandlerMap h)\<rparr>
                          else h\<lparr>eventHandlerMap :=
                                  list_update (eventHandlerMap h) index
                                    (target, HandlerMap handlerMap')\<rparr>))))"

section \<open>Composie: the routing trie\<close>

text \<open>
  \<open>s.indexOf(t)\<close> on strings: the first position at which \<open>t\<close> occurs in \<open>s\<close>, or -1.
\<close>

fun js_indexOf :: "string \<Rightarrow> string \<Rightarrow> int" where
  "js_indexOf [] t = (if t = [] then 0 else - 1)"
| "js_indexOf (c # cs) t =
     (if prefix t (c # cs) then 0
      else (let r = js_indexOf cs t in if r = - 1 then - 1 else r + 1))"

text \<open>
  \<open>Object.keys(obj)\<close>: the keys that are array indices (canonical decimal numerals below
  \<open>2^32 - 1\<close>) in ascending numeric order, then the other keys in creation order. An
  object is the list of its own properties in creation order.
\<close>

definition is_digit :: "char \<Rightarrow> bool" where
  "is_digit c \<longleftrightarrow> 48 \<le> (of_char c :: int) \<and> (of_char c :: int) \<le> 57"

definition index_value :: "string \<Rightarrow> int" where
  "index_value s = foldl (\<lambda>n c. 10 * n + (of_char c - 48)) 0 s"

definition is_array_index :: "string \<Rightarrow> bool" where
  "is_array_index s =
     (case s of
        [] \<Rightarrow> False
      | c # cs \<Rightarrow>
          list_all is_digit s \<and> (cs = [] \<or> c \<noteq> CHR ''0'') \<and>
          length s \<le> 10 \<and> index_value s < 4294967295)"

definition object_keys :: "(string \<times> 'v) list \<Rightarrow> string list" where
  "object_keys obj =
     sort_key index_value (filter is_array_index (map fst obj)) @
     filter (\<lambda>k. \<not> is_array_index k) (map fst obj)"

text \<open>
  A trie node \<open>{mdlws, children}\<close>; \<open>children\<close> may be absent. A level of the trie is
  an object from scopes to nodes.
\<close>

datatype 'f node = Node (mdlws: "'f list") (children: "(string \<times> 'f node) list option")

type_synonym 'f level = "(string \<times> 'f node) list"

text \<open>
  The fields of the class. The wildcard key is random
  (\<open>Math.random().toString(36).slice(2)\<close> twice), so it is a parameter of the constructor.
\<close>

record 'f composie =
  wildcard :: string
  middlewares :: "'f level"
  routers :: "(string \<times> 'f list) list"

definition new_composie :: "string \<Rightarrow> 'f composie" where
  "new_composie w = \<lparr>wildcard = w, middlewares = [], routers = []\<rparr>"

text \<open>
  The inner loop of \<open>addMiddleware\<close>: the keys are visited from the last to the first
  (the argument is the reversed key list) and the first one that equals the scope (1),
  is a prefix of the scope (2) or has the scope as a prefix (3) ends the scan.
\<close>

fun scan_keys :: "string \<Rightarrow> string list \<Rightarrow> (string \<times> nat) option" where
  "scan_keys e [] = None"
| "scan_keys e (k # ks) =
     (if k = e then Some (k, 1)
      else if js_indexOf e k = 0 then Some (k, 2)
      else if js_indexOf k e = 0 then Some (k, 3)
      else scan_keys e ks)"

definition level_size :: "'f level \<Rightarrow> nat" where
  "level_size s = size_list (size_prod (\<lambda>k. 0) size) s"

lemma map_of_size: "map_of s k = Some n \<Longrightarrow> size n < level_size s"
  by (induction s) (auto simp: level_size_def split: if_splits)

lemma children_size: "children n = Some c \<Longrightarrow> level_size c < size n"
  by (cases n) (auto simp: level_size_def)

text \<open>
  The outer loop \<open>for (; s;)\<close> of \<open>addMiddleware\<close> and the assignment after it, as a
  function from the level \<open>s\<close> to the level after the insertion (the source updates the
  objects in place). The key that \<open>scan_keys\<close> finds is a key of \<open>s\<close>, so the lookup
  \<open>s[k]\<close> never fails; its \<open>None\<close> case is there for totality only.
\<close>

function add_level :: "string \<Rightarrow> 'f \<Rightarrow> 'f level \<Rightarrow> 'f level" where
  "add_level e t s =
     (case scan_keys e (rev (object_keys s)) of
        None \<Rightarrow> AList.update e (Node [t] None) s
      | Some (k, n) \<Rightarrow>
          (case map_of s k of
             None \<Rightarrow> s
           | Some sk \<Rightarrow>
               if n = 1 then AList.update k (Node (mdlws sk @ [t]) (children sk)) s
               else if n = 2 then
                 (case children sk of
                    Some c \<Rightarrow> AList.update k (Node (mdlws sk) (Some (add_level e t c))) s
                  | None \<Rightarrow> AList.update k (Node (mdlws sk) (Some [(e, Node [t] None)])) s)
               else AList.update e (Node [t] (Some [(k, sk)])) (AList.delete k s)))"
  by pat_completeness auto
termination
proof (relation "measure (\<lambda>(e, t, s). level_size s)")
  show "wf (measure (\<lambda>(e, t, s). level_size s))" by simp
next
  fix e :: string and t :: 'f and s :: "'f level" and x2 x y sk c
  assume "map_of s x = Some sk" "children sk = Some c"
  then have "level_size c < level_size s"
    using map_of_size children_size by (metis less_trans)
  then show "((e, t, c), (e, t, s)) \<in> measure (\<lambda>(e, t, s). level_size s)" by simp
qed

declare add_level.simps [simp del]

text \<open>
  \<open>addMiddleware(e, t)\<close>. For the wildcard scope the wildcard node is created around the
  present root if it is missing, and \<open>t\<close> is pushed to its list. Otherwise the insertion
  starts in the children of the wildcard node if that node exists, and at the root if
  not. A wildcard node without \<open>children\<close> makes \<open>s\<close> undefined, the loop is skipped and
  \<open>s[e] = ...\<close> throws a \<open>TypeError\<close>: the result \<open>None\<close>.
\<close>

definition addMiddleware :: "string \<Rightarrow> 'f \<Rightarrow> 'f composie \<Rightarrow> 'f composie option" where
  "addMiddleware e t c =
     (if e = wildcard c then
        (let m = (case map_of (middlewares c) e of
                    Some w \<Rightarrow> middlewares c
                  | None \<Rightarrow> [(e, Node [] (Some (middlewares c)))])
         in Some (c\<lparr>middlewares :=
                     AList.map_entry e (\<lambda>w. Node (mdlws w @ [t]) (children w)) m\<rparr>))
      else
        (case map_of (middlewares c) (wildcard c) of
           Some w \<Rightarrow>
             (case children w of
                Some s \<Rightarrow>
                  Some (c\<lparr>middlewares :=
                            AList.update (wildcard c) (Node (mdlws w) (Some (add_level e t s)))
                              (middlewares c)\<rparr>)
              | None \<Rightarrow> None)
         | None \<Rightarrow> Some (c\<lparr>middlewares := add_level e t (middlewares c)\<rparr>)))"

text \<open>
  The loop of \<open>getMiddlewares\<close>: \<open>t\<close> is the current level (\<open>None\<close> when \<open>children\<close> is
  absent) and \<open>s\<close> the list collected so far.
\<close>

function gm_loop :: "string \<Rightarrow> 'f level option \<Rightarrow> 'f list \<Rightarrow> 'f list" where
  "gm_loop e None s = s"
| "gm_loop e (Some t) s =
     (case find (\<lambda>k. js_indexOf e k \<noteq> - 1) (object_keys t) of
        None \<Rightarrow> s
      | Some i \<Rightarrow>
          (case map_of t i of
             None \<Rightarrow> s
           | Some ti \<Rightarrow> gm_loop e (children ti) (s @ mdlws ti)))"
  by pat_completeness auto
termination
proof (relation "measure (\<lambda>(e, t, s). case t of None \<Rightarrow> 0 | Some l \<Rightarrow> Suc (level_size l))")
  show "wf (measure (\<lambda>(e, t, s). case t of None \<Rightarrow> 0 | Some l \<Rightarrow> Suc (level_size l)))"
    by simp
next
  fix e :: string and t :: "'f level" and s :: "'f list" and i ti
  assume "map_of t i = Some ti"
  then have "size ti < level_size t" by (rule map_of_size)
  moreover have "level_size c < size ti" if "children ti = Some c" for c
    using that by (rule children_size)
  ultimately show "((e, children ti, s @ mdlws ti), (e, Some t, s))
      \<in> measure (\<lambda>(e, t, s). case t of None \<Rightarrow> 0 | Some l \<Rightarrow> Suc (level_size l))"
    by (cases "children ti") auto
qed

definition getMiddlewares :: "'f composie \<Rightarrow> string \<Rightarrow> 'f list" where
  "getMiddlewares c e =
     (case map_of (middlewares c) (wildcard c) of
        Some w \<Rightarrow> gm_loop e (children w) ([] @ mdlws w)
      | None \<Rightarrow> gm_loop e (Some (middlewares c)) [])"

text \<open>\<open>route(e, ...t)\<close> for a channel name \<open>e\<close>.\<close>

definition route :: "string \<Rightarrow> 'f list \<Rightarrow> 'f composie \<Rightarrow> 'f composie" where
  "route e t c =
     (if t = [] then c
      else c\<lparr>routers :=
               AList.update e
                 ((case map_of (routers c) e of None \<Rightarrow> [] | Some old \<Rightarrow> old) @ t)
                 (routers c)\<rparr>)"

section \<open>Composie: the composition engine\<close>

text \<open>
  A middleware is a JavaScript function \<open>(context, next) => ...\<close>. What the engine
  observes of one invocation is a sequence of reads and writes of the context and of
  calls of \<open>next\<close>, ended by a returned value, a thrown value or a promise that stays
  pending. That is a \<open>script\<close>: \<open>Next k\<close> calls the continuation and goes on as \<open>k r\<close>
  where \<open>r\<close> is the state of the promise the call returned. The model is sequential: the
  promise returned by \<open>next()\<close> is seen in its final state, as by a middleware that
  awaits it. \<open>script_of r\<close> returns the promise \<open>r\<close> itself.
\<close>

datatype 'c script =
    Return jsval
  | Throw jsval
  | Hang
  | Next "jsval promise \<Rightarrow> 'c script"
  | Get "'c \<Rightarrow> 'c script"
  | Put 'c "'c script"

definition script_of :: "jsval promise \<Rightarrow> 'c script" where
  "script_of r = (case r of Resolved v \<Rightarrow> Return v | Rejected e \<Rightarrow> Throw e | Unsettled \<Rightarrow> Hang)"

text \<open>
  The state of one call of the composed function: the index \<open>i\<close> of its closure and the
  context object.
\<close>

type_synonym 'c chain_state = "int \<times> 'c"

text \<open>
  \<open>Promise.resolve(o(t, r.bind(null, n + 1)))\<close> inside \<open>try\<close>/\<open>catch\<close>: the middleware
  runs with \<open>nxt\<close> as its continuation.
\<close>

primrec exec ::
  "'c script \<Rightarrow> ('c chain_state \<Rightarrow> jsval promise \<times> 'c chain_state) \<Rightarrow> 'c chain_state \<Rightarrow>
     jsval promise \<times> 'c chain_state" where
  "exec (Return v) nxt st = (Resolved v, st)"
| "exec (Throw e) nxt st = (Rejected e, st)"
| "exec Hang nxt st = (Unsettled, st)"
| "exec (Next k) nxt st = (case nxt st of (r, st') \<Rightarrow> exec (k r) nxt st')"
| "exec (Get k) nxt st = exec (k (snd st)) nxt st"
| "exec (Put c k) nxt st = exec k nxt (fst st, c)"

text \<open>
  The inner function \<open>r(n)\<close> of \<open>composeMiddlewares(e)\<close>, called with the terminal
  handler \<open>s\<close> (optional) in state \<open>(i, c)\<close>.
\<close>

function dispatch ::
  "'c script list \<Rightarrow> 'c script option \<Rightarrow> nat \<Rightarrow> 'c chain_state \<Rightarrow>
     jsval promise \<times> 'c chain_state" where
  "dispatch e s n (i, c) =
     (if int n \<le> i then (Rejected (js_error ''Error'' ''next() called multiple times''), (i, c))
      else
        (case (if n = length e then s else if n < length e then Some (e ! n) else None) of
           None \<Rightarrow> (Resolved VUndefined, (int n, c))
         | Some handler \<Rightarrow> exec handler (dispatch e s (Suc n)) (int n, c)))"
  by pat_completeness auto
termination
  by (relation "measure (\<lambda>(e, s, n, st). Suc (length e) - n)") (auto split: if_splits)

declare dispatch.simps [simp del]

text \<open>\<open>composeMiddlewares(e)(t, s)\<close>: \<open>let i = -1; return r(0)\<close>.\<close>

definition composeMiddlewares ::
  "'c script list \<Rightarrow> 'c \<Rightarrow> 'c script option \<Rightarrow> jsval promise \<times> 'c chain_state" where
  "composeMiddlewares e t s = dispatch e s 0 (- 1, t)"

text \<open>The context that \<open>createContext(e, t)\<close> builds, and \<open>run(e, t)\<close> for a channel name.\<close>

record request_context =
  channel :: string
  request :: jsval
  response :: jsval

definition run :: "request_context script composie \<Rightarrow> string \<Rightarrow> jsval \<Rightarrow> jsval promise" where
  "run c e t =
     (let s = \<lparr>channel = e, request = t, response = VUndefined\<rparr>;
          r = getMiddlewares c e @ (case map_of (routers c) e of None \<Rightarrow> [] | Some n \<Rightarrow> n)
      in if r \<noteq> [] then
           (case composeMiddlewares r s None of
              (Resolved v, st) \<Rightarrow> Resolved (response (snd st))
            | (Rejected err, st) \<Rightarrow> Rejected err
            | (Unsettled, st) \<Rightarrow> Unsettled)
         else Resolved VUndefined)"

section \<open>Properties: auxiliary definitions\<close>

subsection \<open>Runs of a hub\<close>

text \<open>
  The calls a hub receives in its lifetime: the public \<open>emit\<close>, \<open>on\<close> and \<open>off\<close> (which
  delegate to \<open>_emit\<close>, \<open>_on\<close>, \<open>_off\<close>) and the delivery of an inbound message.
\<close>

datatype hub_op =
    Emit string method_arg "jsval list"
  | On string on_arg
  | Off string "string option"
  | Receive string "envelope option"

fun step :: "(string \<Rightarrow> handler option) \<Rightarrow> hub_op \<Rightarrow> hub \<Rightarrow> hub" where
  "step inherited (Emit target mn as) h = snd (emit target mn as h)"
| "step inherited (On target a) h = on target a h"
| "step inherited (Off target mn) h = off target mn h"
| "step inherited (Receive target msg) h = snd (onMessage inherited target msg h)"

definition run_ops :: "(string \<Rightarrow> handler option) \<Rightarrow> hub_op list \<Rightarrow> hub \<Rightarrow> hub" where
  "run_ops inherited ops h = fold (step inherited) ops h"

fun is_emit :: "hub_op \<Rightarrow> bool" where
  "is_emit (Emit target mn as) = True"
| "is_emit ope = False"

definition emit_count :: "hub_op list \<Rightarrow> nat" where
  "emit_count ops = length (filter is_emit ops)"

text \<open>The \<open>messageID\<close>s of the requests a hub has sent, oldest first.\<close>

definition request_ids :: "hub \<Rightarrow> int list" where
  "request_ids h =
     map (\<lambda>tm. messageID (snd tm)) (filter (\<lambda>tm. msg_type (snd tm) = TRequest) (outbox h))"

text \<open>
  The argument lists of the \<open>emit\<close> calls of a run, oldest first. Each \<open>emit\<close> creates one
  promise and sends one request, so in a run from a new hub the call that created the
  promise \<open>p\<close> had the arguments \<open>emit_args ops ! p\<close> and sent the request with the
  identifier \<open>request_ids h ! p\<close>.
\<close>

fun op_args :: "hub_op \<Rightarrow> jsval list list" where
  "op_args (Emit target mn as) = [as]"
| "op_args ope = []"

definition emit_args :: "hub_op list \<Rightarrow> jsval list list" where
  "emit_args ops = concat (map op_args ops)"

text \<open>
  \<open>reuses_pending ope h\<close>: the call is an \<open>emit\<close> with a configuration object that an
  outstanding call of \<open>h\<close> holds as its request. \<open>no_reuse ops h\<close>: no call of the run
  \<open>ops\<close> from \<open>h\<close> does that.
\<close>

fun reuses_pending :: "hub_op \<Rightarrow> hub \<Rightarrow> bool" where
  "reuses_pending (Emit target (MethodConfig r c) as) h \<longleftrightarrow>
     Config r \<in> set (map pc_reqMsg (responseCallbacks h))"
| "reuses_pending ope h \<longleftrightarrow> False"

fun no_reuse :: "(string \<Rightarrow> handler option) \<Rightarrow> hub_op list \<Rightarrow> hub \<Rightarrow> bool" where
  "no_reuse inherited [] h \<longleftrightarrow> True"
| "no_reuse inherited (ope # ops) h \<longleftrightarrow>
     \<not> reuses_pending ope h \<and> no_reuse inherited ops (step inherited ope h)"

text \<open>The request object as \<open>_buildReqMessage(methodName, args)\<close> returns it.\<close>

definition built_request :: "method_arg \<Rightarrow> jsval list \<Rightarrow> hub \<Rightarrow> envelope" where
  "built_request mn as h = (case buildReqMessage mn as h of (r, h1) \<Rightarrow> store h1 r)"

subsection \<open>Pending calls\<close>

text \<open>The callback of the pending call \<open>p\<close> reports a match for \<open>msg\<close> (returns 1 or 2).\<close>

definition accepts :: "hub \<Rightarrow> envelope \<Rightarrow> pending \<Rightarrow> bool" where
  "accepts h msg p \<longleftrightarrow>
     isResponse h (store h (pc_reqMsg p)) msg \<or> isProgress h (store h (pc_reqMsg p)) msg"

text \<open>
  The index of the pending call that \<open>_onMessage\<close> delivers \<open>msg\<close> to: the index its
  \<open>findIndex\<close> scan returns.
\<close>

definition matched_call :: "hub \<Rightarrow> envelope \<Rightarrow> nat option" where
  "matched_call h msg = map_option fst (fst (findIndex_callbacks (responseCallbacks h) msg 0 h))"

text \<open>
  What holds of the pending calls of a hub that started from \<open>new_hub\<close>, made at most
  \<open>2^53\<close> requests and none with the configuration object of an outstanding call
  (\<open>hub_inv_reachable\<close> below): every pending request was built by this hub, its promise
  exists and is unsettled, a request object that \<open>_buildReqMessage\<close> created lies below
  the counter of created objects, no two pending calls share a \<open>messageID\<close> or a
  promise, and every unsettled promise belongs to a pending call.
\<close>

definition hub_inv :: "hub \<Rightarrow> bool" where
  "hub_inv h \<longleftrightarrow>
     (\<forall>p\<in>set (responseCallbacks h).
        fromInstance (store h (pc_reqMsg p)) = instanceID h \<and>
        messageID (store h (pc_reqMsg p)) \<le> hub_messageID h \<and>
        pc_promise p < length (promises h) \<and>
        promises h ! pc_promise p = Unsettled \<and>
        (\<forall>n. pc_reqMsg p = Created n \<longrightarrow> n < created h)) \<and>
     distinct (map (\<lambda>p. messageID (store h (pc_reqMsg p))) (responseCallbacks h)) \<and>
     distinct (map pc_promise (responseCallbacks h)) \<and>
     (\<forall>j<length (promises h).
        promises h ! j = Unsettled \<longrightarrow> j \<in> pc_promise ` set (responseCallbacks h))"

text \<open>
  The invocation of the caller's \<open>onprogress\<close> that a progress envelope with data \<open>d\<close>
  causes for a call with the arguments \<open>as\<close>: none when \<open>args[0]\<close> has no such function.
\<close>

definition onprogress_call :: "jsval list \<Rightarrow> jsval \<Rightarrow> (jsval \<times> jsval) list" where
  "onprogress_call as d =
     (case as of
        [] \<Rightarrow> []
      | a # rest \<Rightarrow>
          if truthy a \<and> is_function (get_prop a ''onprogress'')
          then [(get_prop a ''onprogress'', d)] else [])"

text \<open>How a terminal response settles the promise.\<close>

definition outcome :: "envelope \<Rightarrow> jsval promise" where
  "outcome msg = (if isSuccess msg then Resolved (data msg) else Rejected (data msg))"

text \<open>The hub after the \<open>k\<close>-th pending call has consumed the terminal response \<open>msg\<close>.\<close>

definition after_response :: "hub \<Rightarrow> nat \<Rightarrow> envelope \<Rightarrow> hub" where
  "after_response h k msg =
     h\<lparr>promises := list_update (promises h) (pc_promise (responseCallbacks h ! k)) (outcome msg),
       responseCallbacks := splice1 k (responseCallbacks h)\<rparr>"

text \<open>\<open>args[0]\<close> is an object (or function object) with an \<open>onprogress\<close> function.\<close>

definition has_onprogress :: "jsval list \<Rightarrow> bool" where
  "has_onprogress as =
     (case as of
        [] \<Rightarrow> False
      | a # rest \<Rightarrow> props a \<noteq> None \<and> is_function (get_prop a ''onprogress''))"

text \<open>
  What a run \<open>ops\<close> from a new hub keeps between the pending calls of the hub \<open>h\<close> it
  reaches and the \<open>emit\<close> calls that created them, when no call passed the configuration
  object of an outstanding call: the request object of the call with promise \<open>p\<close> still
  holds the arguments of that call and the identifier of the request that was sent
  for it.
\<close>

definition calls_inv :: "hub_op list \<Rightarrow> hub \<Rightarrow> bool" where
  "calls_inv ops h \<longleftrightarrow>
     length (promises h) = emit_count ops \<and>
     length (request_ids h) = emit_count ops \<and>
     (\<forall>p\<in>set (responseCallbacks h).
        args (store h (pc_reqMsg p)) = emit_args ops ! pc_promise p \<and>
        messageID (store h (pc_reqMsg p)) = request_ids h ! pc_promise p)"

subsection \<open>The trie as the specification words it\<close>

text \<open>
  The descent of \<open>getMiddlewares\<close> in the words of the specification: at each level find
  a key that is contained in the channel name (\<open>sublist\<close>: it occurs anywhere inside),
  append that node's list and continue into its children; stop when no key matches.
  The wildcard node's list comes first, and the descent starts below the wildcard node
  when there is one.
\<close>

function descend :: "string \<Rightarrow> 'f level option \<Rightarrow> 'f list" where
  "descend ch None = []"
| "descend ch (Some t) =
     (case find (\<lambda>k. sublist k ch) (object_keys t) of
        None \<Rightarrow> []
      | Some k \<Rightarrow>
          (case map_of t k of
             None \<Rightarrow> []
           | Some n \<Rightarrow> mdlws n @ descend ch (children n)))"
  by pat_completeness auto
termination
proof (relation "measure (\<lambda>(e, t). case t of None \<Rightarrow> 0 | Some l \<Rightarrow> Suc (level_size l))")
  show "wf (measure (\<lambda>(e, t). case t of None \<Rightarrow> 0 | Some l \<Rightarrow> Suc (level_size (l::'f level))))"
    by simp
next
  fix ch :: string and t :: "'f level" and k n
  assume "map_of t k = Some n"
  then have "size n < level_size t" by (rule map_of_size)
  moreover have "level_size c < size n" if "children n = Some c" for c
    using that by (rule children_size)
  ultimately show "((ch, children n), (ch, Some t))
      \<in> measure (\<lambda>(e, t). case t of None \<Rightarrow> 0 | Some l \<Rightarrow> Suc (level_size l))"
    by (cases "children n") auto
qed

definition spec_getMiddlewares :: "'f composie \<Rightarrow> string \<Rightarrow> 'f list" where
  "spec_getMiddlewares c ch =
     (case map_of (middlewares c) (wildcard c) of
        Some w \<Rightarrow> mdlws w @ descend ch (children w)
      | None \<Rightarrow> descend ch (Some (middlewares c)))"

text \<open>Registering middlewares one after the other; \<open>None\<close> when a registration throws.\<close>

fun add_all :: "(string \<times> 'f) list \<Rightarrow> 'f composie \<Rightarrow> 'f composie option" where
  "add_all [] c = Some c"
| "add_all ((e, t) # rest) c =
     (case addMiddleware e t c of None \<Rightarrow> None | Some c' \<Rightarrow> add_all rest c')"

subsection \<open>Example data\<close>

text \<open>
  The hub \<open>alice\<close> after \<open>emit('bob', 'work', {onprogress: f7, n: 5})\<close>, the request it
  built, and envelopes addressed to it.
\<close>

definition req_work :: envelope where
  "req_work =
     \<lparr>fromInstance = ''alice'', toInstance = None, messageID = 1, msg_type = TRequest,
      methodName = ''work'',
      args = [VObj [(''onprogress'', VFun (UserFn 7) []), (''n'', VNum 5)]],
      progress = False, isSuccess = False, data = VUndefined\<rparr>"

definition ops_alice :: "hub_op list" where
  "ops_alice =
     [Emit ''bob'' (MethodName ''work'')
        [VObj [(''onprogress'', VFun (UserFn 7) []), (''n'', VNum 5)]]]"

definition hub_alice :: hub where
  "hub_alice = run_ops (\<lambda>m. None) ops_alice (new_hub ''alice'')"

definition reply :: "string \<Rightarrow> int \<Rightarrow> msg_type \<Rightarrow> bool \<Rightarrow> jsval \<Rightarrow> envelope" where
  "reply sender mid ty ok d =
     \<lparr>fromInstance = sender, toInstance = Some ''alice'', messageID = mid, msg_type = ty,
      methodName = [], args = [], progress = False, isSuccess = ok, data = d\<rparr>"

text \<open>
  Two calls made with one configuration object:
  \<open>cfg = {methodName: 'work'}; emit('bob', cfg, {onprogress: f7});
  emit('carol', cfg, {onprogress: f8})\<close>. The second call passes the object as the
  first one left it.
\<close>

definition hub_first :: hub where
  "hub_first =
     snd (emit ''bob'' (MethodConfig 0 (basicCfg ''work''))
            [VObj [(''onprogress'', VFun (UserFn 7) [])]] (new_hub ''alice''))"

definition hub_twins :: hub where
  "hub_twins =
     snd (emit ''carol'' (MethodConfig 0 (store hub_first (Config 0)))
            [VObj [(''onprogress'', VFun (UserFn 8) [])]] hub_first)"

text \<open>
  One configuration object passed to two calls one after the other:
  \<open>cfg = {methodName: 'work'}; emit('bob', cfg, 1)\<close>, then the response to this call
  arrives, then \<open>emit('bob', cfg, 2)\<close>.
\<close>

definition ops_again :: "hub_op list" where
  "ops_again =
     [Emit ''bob'' (MethodConfig 0 (basicCfg ''work'')) [VNum 1],
      Receive ''bob'' (Some (reply ''bob'' 1 TResponse True (VNum 10))),
      Emit ''bob''
        (MethodConfig 0
           ((basicCfg ''work'')
              \<lparr>fromInstance := ''alice'', messageID := 1, msg_type := TRequest,
               args := [VNum 1]\<rparr>))
        [VNum 2]]"

definition hub_again :: hub where
  "hub_again = run_ops (\<lambda>m. None) ops_again (new_hub ''alice'')"

text \<open>A hub with one catch-all registration.\<close>

definition h_const :: handler where
  "h_const as = ([], Resolved VNull)"

definition hub_catch_all :: hub where
  "hub_catch_all = on ''peer'' (OnHandlers (HandlerFn h_const)) (new_hub ''alice'')"

text \<open>
  A hub after \<open>2^53 + 1\<close> calls \<open>emit('bob', 'ping')\<close> and no response.
\<close>

definition hub_saturated :: hub where
  "hub_saturated =
     run_ops (\<lambda>m. None)
       (replicate (2 ^ 53) (Emit ''bob'' (MethodName ''ping'') []) @
          [Emit ''bob'' (MethodName ''ping'') []])
       (new_hub ''alice'')"

text \<open>The error of a repeated \<open>next()\<close>, and a middleware that calls \<open>next\<close> twice and
  returns whether the second call was rejected with it.\<close>

definition next_called_twice :: jsval where
  "next_called_twice = js_error ''Error'' ''next() called multiple times''"

definition swallow_second :: "'c script" where
  "swallow_second =
     Next (\<lambda>r1. Next (\<lambda>r2. Return (VBool (r2 = Rejected next_called_twice))))"

section \<open>The correlation engine: properties\<close>

lemmas hub_eval = new_hub_def emit_def buildReqMessage_def normalizeRequest_def sendMessage_def
  basicCfg_def js_increment_def onMessage_def isRequest_def isResponse_def isProgress_def
  callback_def settle_def splice1_def get_prop_def attach_onprogress_def runMsgCallback_def
  matchedMap_def resolve_method_def get_method_def buildRespMessage_def buildProgressMessage_def
  js_error_def on_def off_def object_assign_def Let_def

subsection \<open>What each operation leaves alone\<close>

lemma normalizeRequest_keeps:
  "messageID (normalizeRequest target msg) = messageID msg"
  "msg_type (normalizeRequest target msg) = msg_type msg"
  "fromInstance (normalizeRequest target msg) = fromInstance msg"
  by (auto simp: normalizeRequest_def split: list.splits option.splits)

lemma emit_counter: "hub_messageID (snd (emit target mn as h)) = js_increment (hub_messageID h)"
  by (simp add: emit_def buildReqMessage_def sendMessage_def Let_def split: method_arg.splits)

lemma emit_request_ids:
  "request_ids (snd (emit target mn as h)) = request_ids h @ [js_increment (hub_messageID h)]"
  by (simp add: request_ids_def emit_def buildReqMessage_def sendMessage_def Let_def
      normalizeRequest_keeps split: method_arg.splits)

lemma on_frame:
  "hub_messageID (on target a h) = hub_messageID h" "outbox (on target a h) = outbox h"
  by (auto simp: on_def Let_def split: option.splits)

lemma off_frame:
  "hub_messageID (off target mn h) = hub_messageID h" "outbox (off target mn h) = outbox h"
  by (auto simp: off_def Let_def split: option.splits registration.splits)

lemma settle_frame [simp]:
  "hub_messageID (settle p r h) = hub_messageID h" "outbox (settle p r h) = outbox h"
  "responseCallbacks (settle p r h) = responseCallbacks h"
  "instanceID (settle p r h) = instanceID h"
  "eventHandlerMap (settle p r h) = eventHandlerMap h"
  "progressCalls (settle p r h) = progressCalls h"
  "store (settle p r h) = store h" "created (settle p r h) = created h"
  "length (promises (settle p r h)) = length (promises h)"
  by (auto simp: settle_def)

lemma callback_frame:
  "callback p msg h = (ret, h') \<Longrightarrow>
     hub_messageID h' = hub_messageID h \<and> outbox h' = outbox h \<and>
     responseCallbacks h' = responseCallbacks h \<and> instanceID h' = instanceID h \<and>
     eventHandlerMap h' = eventHandlerMap h \<and> length (promises h') = length (promises h) \<and>
     store h' = store h \<and> created h' = created h"
  by (auto simp: callback_def Let_def split: if_splits list.splits)

lemma findIndex_callbacks_frame:
  "findIndex_callbacks ps msg i h = (r, h') \<Longrightarrow>
     hub_messageID h' = hub_messageID h \<and> outbox h' = outbox h \<and>
     responseCallbacks h' = responseCallbacks h \<and> instanceID h' = instanceID h \<and>
     eventHandlerMap h' = eventHandlerMap h \<and> length (promises h') = length (promises h) \<and>
     store h' = store h \<and> created h' = created h"
proof (induction ps arbitrary: i h)
  case Nil
  then show ?case by simp
next
  case (Cons p ps)
  obtain ret h1 where c: "callback p msg h = (ret, h1)" by (cases "callback p msg h")
  note f = callback_frame [OF c]
  show ?case
  proof (cases "ret \<noteq> 0")
    case True
    with Cons.prems c f show ?thesis by simp
  next
    case False
    with Cons.prems c have "findIndex_callbacks ps msg (Suc i) h1 = (r, h')" by simp
    from Cons.IH [OF this] f show ?thesis by simp
  qed
qed

lemma fold_sendMessage:
  "fold (\<lambda>d. sendMessage target (f d)) ds h =
     h\<lparr>outbox := outbox h @ map (\<lambda>d. (target, f d)) ds\<rparr>"
  by (induction ds arbitrary: h) (auto simp: sendMessage_def)

lemma runMsgCallback_type:
  "runMsgCallback inherited target msg h = (ds, Some r) \<Longrightarrow>
     msg_type (case r of Inl e \<Rightarrow> e | Inr e \<Rightarrow> e) = TResponse"
  by (auto simp: runMsgCallback_def buildRespMessage_def
      split: option.splits prod.splits promise.splits)

lemma onMessage_counter:
  "hub_messageID (snd (onMessage inherited target msg h)) = hub_messageID h"
  apply (cases msg)
   apply (simp add: onMessage_def)
  apply (simp add: onMessage_def)
  apply (auto split: prod.splits option.splits sum.splits
      simp: sendMessage_def fold_sendMessage Let_def dest: findIndex_callbacks_frame)
  done

lemma onMessage_request_ids:
  "request_ids (snd (onMessage inherited target msg h)) = request_ids h"
  apply (cases msg)
   apply (simp add: onMessage_def)
  apply (simp add: onMessage_def)
  apply (auto split: prod.splits option.splits sum.splits
      simp: request_ids_def sendMessage_def fold_sendMessage Let_def buildProgressMessage_def
        o_def
      dest: findIndex_callbacks_frame runMsgCallback_type)
  done

lemma step_ids:
  "request_ids (step inherited ope h) =
     (if is_emit ope then request_ids h @ [js_increment (hub_messageID h)] else request_ids h)"
  by (cases ope)
    (simp_all add: emit_request_ids onMessage_request_ids,
     simp_all add: request_ids_def on_frame off_frame)

lemma step_counter:
  "hub_messageID (step inherited ope h) =
     (if is_emit ope then js_increment (hub_messageID h) else hub_messageID h)"
  by (cases ope) (simp_all add: emit_counter on_frame off_frame onMessage_counter)

lemma run_ops_snoc:
  "run_ops inherited (ops @ [ope]) h = step inherited ope (run_ops inherited ops h)"
  by (simp add: run_ops_def)

subsection \<open>The sequence numbers of a run\<close>

lemma run_ops_ids:
  "int (emit_count ops) \<le> 2 ^ 53 \<Longrightarrow>
     hub_messageID (run_ops inherited ops (new_hub iid)) = int (emit_count ops) \<and>
     request_ids (run_ops inherited ops (new_hub iid)) = map int [1..<Suc (emit_count ops)]"
proof (induction ops rule: rev_induct)
  case Nil
  then show ?case by (simp add: run_ops_def new_hub_def emit_count_def request_ids_def)
next
  case (snoc ope ops)
  show ?case
  proof (cases "is_emit ope")
    case False
    with snoc show ?thesis
      by (simp add: run_ops_snoc step_ids step_counter emit_count_def)
  next
    case True
    with snoc.prems have lt: "int (emit_count ops) < 2 ^ 53"
      by (simp add: emit_count_def)
    with snoc.IH
    have ih: "hub_messageID (run_ops inherited ops (new_hub iid)) = int (emit_count ops)"
      "request_ids (run_ops inherited ops (new_hub iid)) = map int [1..<Suc (emit_count ops)]"
      by simp_all
    have c: "emit_count (ops @ [ope]) = Suc (emit_count ops)"
      using True by (simp add: emit_count_def)
    from lt have inc: "js_increment (int (emit_count ops)) = int (emit_count ops) + 1"
      by (simp add: js_increment_def)
    show ?thesis
      unfolding run_ops_snoc step_ids step_counter c ih
      using True inc by simp
  qed
qed

lemma sorted_wrt_map_int_upt: "sorted_wrt (<) (map int [m..<n])"
  by (simp add: sorted_wrt_map sorted_wrt_iff_nth_less)

lemma saturated_emit_repeats:
  assumes "int (emit_count ops) = 2 ^ 53"
  shows "\<not> distinct
           (request_ids (run_ops inherited (ops @ [Emit target mn as]) (new_hub iid)))"
proof -
  define n where "n = emit_count ops"
  have le: "int (emit_count ops) \<le> 2 ^ 53" using assms by simp
  have n: "int n = 2 ^ 53" using assms by (simp add: n_def)
  then have pos: "0 < n" by (cases n) simp_all
  have c: "hub_messageID (run_ops inherited ops (new_hub iid)) = int n"
    and ids: "request_ids (run_ops inherited ops (new_hub iid)) = map int [1..<Suc n]"
    using run_ops_ids [OF le] by (simp_all add: n_def)
  have inc: "js_increment (int n) = int n"
    using n by (simp add: js_increment_def)
  have mem: "int n \<in> set (map int [1..<Suc n])"
    using pos by auto
  have "request_ids (run_ops inherited (ops @ [Emit target mn as]) (new_hub iid))
      = map int [1..<Suc n] @ [int n]"
    unfolding run_ops_snoc step_ids c ids inc by simp
  with mem show ?thesis by (simp only: distinct_append distinct.simps) auto
qed

lemma emit_count_replicate: "int (emit_count (replicate n (Emit target mn as))) = int n"
  by (simp add: emit_count_def)

text \<open>
  Claim C2, as amended. For every sequence of calls on a hub that contains at most \<open>2^53\<close>
  \<open>emit\<close> calls (whatever \<open>on\<close>, \<open>off\<close> and deliveries of inbound messages lie between
  them), the \<open>messageID\<close> of each outgoing request is strictly greater than that of every
  request the hub built before: the identifiers are strictly increasing, and so none is
  used twice.
\<close>

theorem messageID_strictly_increasing:
  "int (emit_count ops) \<le> 2 ^ 53 \<Longrightarrow>
     sorted_wrt (<) (request_ids (run_ops inherited ops (new_hub iid))) \<and>
     distinct (request_ids (run_ops inherited ops (new_hub iid)))"
proof -
  assume a: "int (emit_count ops) \<le> 2 ^ 53"
  have s: "sorted_wrt (<) (request_ids (run_ops inherited ops (new_hub iid)))"
    using run_ops_ids [OF a] by (simp only: sorted_wrt_map_int_upt)
  then show ?thesis by (simp add: strict_sorted_iff)
qed

text \<open>
  The theorem at a run of two \<open>emit\<close> calls around a delivery: the identifiers are 1
  and 2.
\<close>

theorem messageID_strictly_increasing_witness:
  "int (emit_count [Emit ''peer'' (MethodName ''ping'') [], Receive ''peer'' None,
                    Emit ''peer'' (MethodName ''add'') [VNum 1]]) \<le> 2 ^ 53 \<and>
   sorted_wrt (<) (request_ids (run_ops (\<lambda>m. None)
      [Emit ''peer'' (MethodName ''ping'') [], Receive ''peer'' None,
       Emit ''peer'' (MethodName ''add'') [VNum 1]] (new_hub ''hub-a''))) \<and>
   request_ids (run_ops (\<lambda>m. None)
      [Emit ''peer'' (MethodName ''ping'') [], Receive ''peer'' None,
       Emit ''peer'' (MethodName ''add'') [VNum 1]] (new_hub ''hub-a'')) = [1, 2]"
proof -
  have h: "int (emit_count [Emit ''peer'' (MethodName ''ping'') [], Receive ''peer'' None,
                            Emit ''peer'' (MethodName ''add'') [VNum 1]]) \<le> 2 ^ 53"
    by (simp add: emit_count_def)
  have v: "request_ids (run_ops (\<lambda>m. None)
      [Emit ''peer'' (MethodName ''ping'') [], Receive ''peer'' None,
       Emit ''peer'' (MethodName ''add'') [VNum 1]] (new_hub ''hub-a'')) = [1, 2]"
    by (simp add: run_ops_def request_ids_def hub_eval)
  from messageID_strictly_increasing [OF h, of "\<lambda>m. None" "''hub-a''"] h v
  show ?thesis by simp
qed

text \<open>
  Claim C2 as stated fails: the counter is a JavaScript number, and \<open>++\<close> leaves
  \<open>2^53\<close> unchanged. After \<open>2^53\<close> requests the next one repeats the identifier
  \<open>2^53\<close>.
\<close>

theorem messageID_repeats_after_2_53:
  "\<not> distinct (request_ids (run_ops (\<lambda>m. None)
        (replicate (2 ^ 53) (Emit ''peer'' (MethodName ''ping'') []) @
           [Emit ''peer'' (MethodName ''ping'') []])
        (new_hub ''hub-a'')))"
proof (rule saturated_emit_repeats)
  show "int (emit_count (replicate (2 ^ 53) (Emit ''peer'' (MethodName ''ping'') []))) = 2 ^ 53"
    unfolding emit_count_replicate by simp
qed

subsection \<open>Requests with a progress callback\<close>

text \<open>
  Claim C8. For every \<open>emit\<close> whose target is not \<open>'*'\<close> and whose \<open>args[0]\<close> is an object
  with an \<open>onprogress\<close> function, the request that is sent carries \<open>progress: true\<close> and
  its \<open>args[0]\<close> is a copy without \<open>onprogress\<close> (the other arguments and fields are
  those of the request as built); when the target is \<open>'*'\<close> or \<open>args[0]\<close> has no
  \<open>onprogress\<close> function, the request is sent as built, and a request built from a
  method name has no progress flag.
\<close>

theorem emit_detaches_onprogress:
  "(target \<noteq> ''*'' \<and> has_onprogress as \<longrightarrow>
      (\<exists>a rest ps. as = a # rest \<and> props a = Some ps \<and>
         outbox (snd (emit target mn as h)) =
           outbox h @
             [(target, (built_request mn as h)
                 \<lparr>progress := True, args := VObj (AList.delete ''onprogress'' ps) # rest\<rparr>)] \<and>
         get_prop (VObj (AList.delete ''onprogress'' ps)) ''onprogress'' = VUndefined)) \<and>
   (target = ''*'' \<or> \<not> has_onprogress as \<longrightarrow>
      outbox (snd (emit target mn as h)) =
        outbox h @ [(target, built_request mn as h)]) \<and>
   \<not> progress (built_request (MethodName m) as h)"
proof -
  have ob: "outbox (snd (emit target mn as h)) =
      outbox h @ [(target, normalizeRequest target (built_request mn as h))]"
    by (simp add: emit_def built_request_def buildReqMessage_def sendMessage_def Let_def
        split: method_arg.splits)
  have ar: "args (built_request mn as h) = as"
    by (simp add: built_request_def buildReqMessage_def Let_def split: method_arg.splits)
  have del: "map_of (AList.delete k ps) k = None" for k and ps :: "(string \<times> jsval) list"
    by (induction ps) auto
  have tr: "truthy a" if "props a = Some ps" for a ps
    using that by (cases a) auto
  have np: "\<not> progress (built_request (MethodName m) as h)"
    by (simp add: built_request_def buildReqMessage_def basicCfg_def Let_def)
  show ?thesis
  proof (cases as)
    case Nil
    with ob ar np show ?thesis
      by (simp add: normalizeRequest_def has_onprogress_def)
  next
    case (Cons a rest)
    show ?thesis
    proof (cases "props a")
      case None
      with Cons ob ar np show ?thesis
        by (simp add: normalizeRequest_def has_onprogress_def get_prop_def)
    next
      case (Some ps)
      with Cons ob ar np tr [OF Some] show ?thesis
        by (auto simp add: normalizeRequest_def has_onprogress_def get_prop_def del)
    qed
  qed
qed

text \<open>
  The theorem at \<open>emit('bob', 'work', {onprogress: f7, n: 5})\<close>, at the same call with
  target \<open>'*'\<close>, and at \<open>emit('bob', 'work', 5)\<close>.
\<close>

theorem emit_detaches_onprogress_witness:
  "has_onprogress [VObj [(''onprogress'', VFun (UserFn 7) []), (''n'', VNum 5)]] \<and>
   outbox (snd (emit ''bob'' (MethodName ''work'')
      [VObj [(''onprogress'', VFun (UserFn 7) []), (''n'', VNum 5)]] (new_hub ''alice''))) =
     [(''bob'', req_work\<lparr>progress := True, args := [VObj [(''n'', VNum 5)]]\<rparr>)] \<and>
   outbox (snd (emit ''*'' (MethodName ''work'')
      [VObj [(''onprogress'', VFun (UserFn 7) []), (''n'', VNum 5)]] (new_hub ''alice''))) =
     [(''*'', req_work)] \<and>
   outbox (snd (emit ''bob'' (MethodName ''work'') [VNum 5] (new_hub ''alice''))) =
     [(''bob'', req_work\<lparr>args := [VNum 5]\<rparr>)]"
  using emit_detaches_onprogress
    [of "''bob''" "[VObj [(''onprogress'', VFun (UserFn 7) []), (''n'', VNum 5)]]"
      "MethodName ''work''" "new_hub ''alice''"]
  by (simp add: has_onprogress_def req_work_def built_request_def hub_eval)

subsection \<open>The scan of the pending calls\<close>

lemma callback_reject: "\<not> accepts h msg p \<Longrightarrow> callback p msg h = (0, h)"
  by (simp add: callback_def accepts_def Let_def)

lemma callback_accept: "accepts h msg p \<Longrightarrow> fst (callback p msg h) \<noteq> 0"
  by (auto simp add: callback_def accepts_def Let_def)

text \<open>A callback reports a match exactly when \<open>accepts\<close> holds, whatever the state.\<close>

lemma accepts_callback: "accepts h msg p \<longleftrightarrow> fst (callback p msg h) \<noteq> 0"
  by (auto simp add: callback_def accepts_def Let_def)

lemma callback_ret:
  "fst (callback p msg h) =
     (if isResponse h (store h (pc_reqMsg p)) msg then 1
      else if isProgress h (store h (pc_reqMsg p)) msg then 2 else 0)"
  by (auto simp add: callback_def Let_def)

lemma findIndex_callbacks_eq:
  "findIndex_callbacks ps msg i h =
     (case findIndex (accepts h msg) ps of
        None \<Rightarrow> (None, h)
      | Some k \<Rightarrow>
          (Some (i + k, fst (callback (ps ! k) msg h)), snd (callback (ps ! k) msg h)))"
proof (induction ps arbitrary: i)
  case Nil
  show ?case by simp
next
  case (Cons p ps)
  show ?case
  proof (cases "accepts h msg p")
    case True
    then show ?thesis
      using callback_accept [OF True] by (simp add: split_beta)
  next
    case False
    then show ?thesis
      by (simp add: callback_reject Cons.IH split: option.splits)
  qed
qed

lemma findIndex_None_iff: "findIndex P xs = None \<longleftrightarrow> (\<forall>x\<in>set xs. \<not> P x)"
  by (induction xs) auto

lemma findIndex_Some_iff:
  "findIndex P xs = Some k \<longleftrightarrow> k < length xs \<and> P (xs ! k) \<and> (\<forall>j<k. \<not> P (xs ! j))"
proof (induction xs arbitrary: k)
  case Nil
  show ?case by simp
next
  case (Cons x xs)
  show ?case
  proof (cases "P x")
    case True
    then show ?thesis by (cases k) auto
  next
    case False
    show ?thesis
    proof (cases k)
      case 0
      with False show ?thesis by auto
    next
      case (Suc k')
      have "(\<forall>j<Suc k'. \<not> P ((x # xs) ! j)) \<longleftrightarrow> (\<forall>j<k'. \<not> P (xs ! j))"
        using False by (auto simp: less_Suc_eq_0_disj)
      with False Suc Cons.IH [of k'] show ?thesis by auto
    qed
  qed
qed

lemma onMessage_other:
  assumes "\<not> isRequest h msg"
  shows "onMessage inherited target (Some msg) h =
     (Resolved (),
      case findIndex (accepts h msg) (responseCallbacks h) of
        None \<Rightarrow> h
      | Some k \<Rightarrow>
          if isResponse h (store h (pc_reqMsg (responseCallbacks h ! k))) msg
          then (snd (callback (responseCallbacks h ! k) msg h))
                 \<lparr>responseCallbacks := splice1 k (responseCallbacks h)\<rparr>
          else snd (callback (responseCallbacks h ! k) msg h))"
proof (cases "findIndex (accepts h msg) (responseCallbacks h)")
  case None
  with assms show ?thesis
    by (simp add: onMessage_def findIndex_callbacks_eq)
next
  case (Some k)
  then have "accepts h msg (responseCallbacks h ! k)"
    by (simp add: findIndex_Some_iff)
  with assms Some show ?thesis
    by (auto simp add: onMessage_def findIndex_callbacks_eq callback_ret accepts_def
        callback_def Let_def)
qed

lemma matched_call_eq: "matched_call h msg = findIndex (accepts h msg) (responseCallbacks h)"
  by (simp add: matched_call_def findIndex_callbacks_eq split: option.splits)

lemma map_splice1: "map f (splice1 k xs) = splice1 k (map f xs)"
  by (simp add: splice1_def take_map drop_map)

lemma set_splice1: "set (splice1 k xs) \<subseteq> set xs"
  by (auto simp: splice1_def dest: in_set_takeD in_set_dropD)

lemma distinct_splice1: "distinct xs \<Longrightarrow> distinct (splice1 k xs)"
  unfolding splice1_def
  by (metis append_take_drop_id distinct_append distinct_drop drop_Suc tl_drop distinct_tl
      set_take_disj_set_drop_if_distinct le_SucI order_refl)

lemma nth_notin_splice1:
  assumes "distinct xs" "k < length xs"
  shows "xs ! k \<notin> set (splice1 k xs)"
proof -
  have "xs = take k xs @ xs ! k # drop (Suc k) xs"
    using assms(2) by (simp add: id_take_nth_drop)
  then have "distinct (take k xs @ xs ! k # drop (Suc k) xs)"
    using assms(1) by simp
  then show ?thesis by (auto simp: splice1_def)
qed

lemma splice1_keeps:
  assumes "x \<in> set xs" "x \<noteq> xs ! i"
  shows "x \<in> set (splice1 i xs)"
proof (cases "i < length xs")
  case True
  have "set (take i xs @ xs ! i # drop (Suc i) xs) = set xs"
    using id_take_nth_drop [OF True] by (rule arg_cong [where f = set, symmetric])
  then have "x \<in> set (take i xs) \<union> {xs ! i} \<union> set (drop (Suc i) xs)"
    using assms(1) by auto
  with assms(2) show ?thesis by (auto simp: splice1_def)
next
  case False
  with assms(1) show ?thesis by (simp add: splice1_def)
qed

lemma accepts_iff:
  assumes "fromInstance (store h (pc_reqMsg p)) = instanceID h"
  shows "accepts h msg p \<longleftrightarrow>
     toInstance msg = Some (instanceID h) \<and> messageID msg = messageID (store h (pc_reqMsg p)) \<and>
     (msg_type msg = TResponse \<or> msg_type msg = TProgress)"
  using assms by (auto simp: accepts_def isResponse_def isProgress_def)

lemma inv_first_match:
  assumes "hub_inv h" "k < length (responseCallbacks h)"
  shows "findIndex (accepts h msg) (responseCallbacks h) = Some k \<longleftrightarrow>
           accepts h msg (responseCallbacks h ! k)"
proof
  assume "findIndex (accepts h msg) (responseCallbacks h) = Some k"
  then show "accepts h msg (responseCallbacks h ! k)" by (simp add: findIndex_Some_iff)
next
  assume a: "accepts h msg (responseCallbacks h ! k)"
  let ?cbs = "responseCallbacks h"
  have frm: "fromInstance (store h (pc_reqMsg (?cbs ! j))) = instanceID h" if "j < length ?cbs" for j
    using assms(1) that by (simp add: hub_inv_def)
  have d: "distinct (map (\<lambda>p. messageID (store h (pc_reqMsg p))) ?cbs)"
    using assms(1) by (simp add: hub_inv_def)
  have "\<not> accepts h msg (?cbs ! j)" if "j < k" for j
  proof
    assume b: "accepts h msg (?cbs ! j)"
    have jl: "j < length ?cbs" using that assms(2) by simp
    from a b have "messageID (store h (pc_reqMsg (?cbs ! j))) = messageID (store h (pc_reqMsg (?cbs ! k)))"
      by (simp add: accepts_iff frm jl assms(2))
    then have "map (\<lambda>p. messageID (store h (pc_reqMsg p))) ?cbs ! j =
        map (\<lambda>p. messageID (store h (pc_reqMsg p))) ?cbs ! k"
      using jl assms(2) by simp
    with d jl assms(2) have "j = k" by (metis length_map nth_eq_iff_index_eq)
    with that show False by simp
  qed
  with a assms(2) show "findIndex (accepts h msg) ?cbs = Some k"
    by (simp add: findIndex_Some_iff)
qed

subsection \<open>The state after \<open>emit\<close>\<close>

text \<open>
  The entry that \<open>_emit\<close> registers refers to the request object, which holds the
  request as built, with the caller's own arguments (the \<open>onprogress\<close> function still in
  \<open>args[0]\<close>); the object is the only one whose contents change.
\<close>

lemma emit_fields:
  "responseCallbacks (snd (emit target mn as h)) =
     responseCallbacks h @
       [\<lparr>pc_target = target, pc_reqMsg = fst (buildReqMessage mn as h),
         pc_promise = length (promises h)\<rparr>]"
  "promises (snd (emit target mn as h)) = promises h @ [Unsettled]"
  "instanceID (snd (emit target mn as h)) = instanceID h"
  "store (snd (emit target mn as h)) =
     (store h)(fst (buildReqMessage mn as h) := built_request mn as h)"
  "created (snd (emit target mn as h)) =
     (case mn of MethodName m \<Rightarrow> Suc (created h) | MethodConfig k c \<Rightarrow> created h)"
  "progressCalls (snd (emit target mn as h)) = progressCalls h"
  "eventHandlerMap (snd (emit target mn as h)) = eventHandlerMap h"
  by (simp_all add: emit_def built_request_def buildReqMessage_def sendMessage_def Let_def
      split: method_arg.splits)

lemma buildReqMessage_ref:
  "fst (buildReqMessage mn as h) =
     (case mn of MethodName m \<Rightarrow> Created (created h) | MethodConfig k c \<Rightarrow> Config k)"
  by (simp add: buildReqMessage_def Let_def split: method_arg.splits)

lemma built_request_fields:
  "fromInstance (built_request mn as h) = instanceID h"
  "messageID (built_request mn as h) = js_increment (hub_messageID h)"
  "msg_type (built_request mn as h) = TRequest"
  "args (built_request mn as h) = as"
  by (simp_all add: built_request_def buildReqMessage_def Let_def split: method_arg.splits)

text \<open>
  When the call does not pass the configuration object of an outstanding call, the
  request object is none of those the pending calls refer to.
\<close>

lemma emit_fresh_ref:
  assumes "\<forall>p\<in>set (responseCallbacks h). \<forall>n. pc_reqMsg p = Created n \<longrightarrow> n < created h"
    and "\<not> reuses_pending (Emit target mn as) h"
  shows "fst (buildReqMessage mn as h) \<notin> pc_reqMsg ` set (responseCallbacks h)"
proof (cases mn)
  case (MethodName m)
  show ?thesis
  proof
    assume "fst (buildReqMessage mn as h) \<in> pc_reqMsg ` set (responseCallbacks h)"
    then obtain p where p: "p \<in> set (responseCallbacks h)" "pc_reqMsg p = Created (created h)"
      using MethodName by (auto simp: buildReqMessage_ref)
    with assms(1) have "created h < created h" by blast
    then show False by simp
  qed
next
  case (MethodConfig k c)
  with assms(2) show ?thesis by (simp add: buildReqMessage_ref)
qed

subsection \<open>The invariant of the pending calls\<close>

lemma hub_inv_emit:
  assumes "hub_inv h" "hub_messageID h < 2 ^ 53" "\<not> reuses_pending (Emit target mn as) h"
  shows "hub_inv (snd (emit target mn as h))"
proof -
  let ?cbs = "responseCallbacks h"
  let ?r = "fst (buildReqMessage mn as h)"
  let ?h' = "snd (emit target mn as h)"
  have inc: "js_increment (hub_messageID h) = hub_messageID h + 1"
    using assms(2) by (simp add: js_increment_def)
  have old: "fromInstance (store h (pc_reqMsg p)) = instanceID h \<and>
        messageID (store h (pc_reqMsg p)) \<le> hub_messageID h \<and>
        pc_promise p < length (promises h) \<and>
        promises h ! pc_promise p = Unsettled \<and>
        (\<forall>n. pc_reqMsg p = Created n \<longrightarrow> n < created h)" if "p \<in> set ?cbs" for p
    using assms(1) that by (simp add: hub_inv_def)
  have d1: "distinct (map (\<lambda>p. messageID (store h (pc_reqMsg p))) ?cbs)"
    and d2: "distinct (map pc_promise ?cbs)"
    using assms(1) by (simp_all add: hub_inv_def)
  have fr: "?r \<notin> pc_reqMsg ` set ?cbs"
    using old assms(3) by (intro emit_fresh_ref) blast+
  have same: "store ?h' (pc_reqMsg p) = store h (pc_reqMsg p)" if "p \<in> set ?cbs" for p
  proof -
    from fr that have "pc_reqMsg p \<noteq> ?r" by (metis imageI)
    then show ?thesis by (simp add: emit_fields(4))
  qed
  have new: "store ?h' ?r = built_request mn as h"
    by (simp add: emit_fields)
  have cr: "created h \<le> created ?h'"
    by (simp add: emit_fields split: method_arg.splits)
  have rcr: "\<forall>n. ?r = Created n \<longrightarrow> n < created ?h'"
    by (simp add: emit_fields buildReqMessage_ref split: method_arg.splits)
  have fresh_id: "hub_messageID h + 1 \<notin> (\<lambda>p. messageID (store h (pc_reqMsg p))) ` set ?cbs"
    using old by force
  have fresh_pr: "length (promises h) \<notin> pc_promise ` set ?cbs"
    using old by force
  have ids: "map (\<lambda>p. messageID (store ?h' (pc_reqMsg p))) ?cbs =
      map (\<lambda>p. messageID (store h (pc_reqMsg p))) ?cbs"
    using same by simp
  have all_old: "fromInstance (store ?h' (pc_reqMsg p)) = instanceID ?h' \<and>
        messageID (store ?h' (pc_reqMsg p)) \<le> hub_messageID ?h' \<and>
        pc_promise p < length (promises ?h') \<and>
        promises ?h' ! pc_promise p = Unsettled \<and>
        (\<forall>n. pc_reqMsg p = Created n \<longrightarrow> n < created ?h')" if "p \<in> set ?cbs" for p
    using old [OF that] same [OF that] cr
    by (auto simp add: emit_fields(2,3) emit_counter inc nth_append)
  have all_new: "fromInstance (store ?h' ?r) = instanceID ?h' \<and>
        messageID (store ?h' ?r) \<le> hub_messageID ?h' \<and>
        length (promises h) < length (promises ?h') \<and>
        promises ?h' ! length (promises h) = Unsettled"
    by (simp add: new built_request_fields emit_fields(2,3) emit_counter)
  have dist1: "distinct (map (\<lambda>p. messageID (store ?h' (pc_reqMsg p))) (responseCallbacks ?h'))"
    using d1 fresh_id
    by (simp add: emit_fields(1) ids new built_request_fields inc)
  have dist2: "distinct (map pc_promise (responseCallbacks ?h'))"
    using d2 fresh_pr by (simp add: emit_fields(1))
  have un: "j \<in> pc_promise ` set ?cbs" if "j < length (promises h)" "promises h ! j = Unsettled"
    for j
    using assms(1) that by (simp add: hub_inv_def)
  have un': "j \<in> pc_promise ` set (responseCallbacks ?h')"
    if "j < length (promises ?h')" "promises ?h' ! j = Unsettled" for j
  proof (cases "j < length (promises h)")
    case True
    with that(2) have "promises h ! j = Unsettled" by (simp add: emit_fields(2) nth_append)
    from un [OF True this] show ?thesis by (auto simp add: emit_fields(1))
  next
    case False
    with that(1) have "j = length (promises h)" by (simp add: emit_fields(2))
    then show ?thesis by (simp add: emit_fields(1))
  qed
  show ?thesis
    unfolding hub_inv_def
    using all_old all_new rcr dist1 dist2 un' by (auto simp add: emit_fields(1))
qed

lemma hub_inv_on: "hub_inv (on target a h) = hub_inv h"
  by (auto simp: on_def hub_inv_def Let_def split: option.splits)

lemma hub_inv_off: "hub_inv (off target mn h) = hub_inv h"
  by (auto simp: off_def hub_inv_def Let_def split: option.splits registration.splits)

lemma hub_inv_outbox: "hub_inv (h\<lparr>outbox := ob\<rparr>) = hub_inv h"
  by (simp add: hub_inv_def)

lemma hub_inv_progressCalls: "hub_inv (h\<lparr>progressCalls := pc\<rparr>) = hub_inv h"
  by (simp add: hub_inv_def)

lemma onMessage_request_frame:
  assumes "isRequest h msg"
  shows "snd (onMessage inherited target (Some msg) h) =
           h\<lparr>outbox := outbox (snd (onMessage inherited target (Some msg) h))\<rparr>"
proof (cases "attach_onprogress msg")
  case None
  with assms show ?thesis
    by (simp add: onMessage_def)
next
  case (Some ma)
  obtain msg' attached where ma: "ma = (msg', attached)" by (cases ma)
  obtain ds r where r: "runMsgCallback inherited target msg' h = (ds, r)"
    by (cases "runMsgCallback inherited target msg' h")
  show ?thesis
    using assms Some ma r
    by (cases r) (auto simp add: onMessage_def fold_sendMessage sendMessage_def split: sum.splits)
qed

lemma callback_progress:
  assumes "\<not> isResponse h (store h (pc_reqMsg p)) msg"
  shows "snd (callback p msg h) = h\<lparr>progressCalls := progressCalls (snd (callback p msg h))\<rparr>"
  using assms by (auto simp add: callback_def Let_def split: list.splits)

lemma hub_inv_response:
  assumes inv: "hub_inv h" and k: "k < length (responseCallbacks h)" and r: "r \<noteq> Unsettled"
  shows "hub_inv ((settle (pc_promise (responseCallbacks h ! k)) r h)
                    \<lparr>responseCallbacks := splice1 k (responseCallbacks h)\<rparr>)"
proof -
  let ?cbs = "responseCallbacks h"
  let ?p = "?cbs ! k"
  have d1: "distinct (map (\<lambda>p. messageID (store h (pc_reqMsg p))) ?cbs)"
    and d2: "distinct (map pc_promise ?cbs)"
    using inv by (simp_all add: hub_inv_def)
  have other: "pc_promise q \<noteq> pc_promise ?p" if "q \<in> set (splice1 k ?cbs)" for q
  proof -
    have "pc_promise q \<in> set (splice1 k (map pc_promise ?cbs))"
      using that by (metis imageI map_splice1 set_map)
    moreover have "map pc_promise ?cbs ! k \<notin> set (splice1 k (map pc_promise ?cbs))"
      using d2 k by (intro nth_notin_splice1) simp_all
    ultimately show ?thesis using k by auto
  qed
  have old: "fromInstance (store h (pc_reqMsg q)) = instanceID h \<and>
        messageID (store h (pc_reqMsg q)) \<le> hub_messageID h \<and>
        pc_promise q < length (promises h) \<and>
        promises h ! pc_promise q = Unsettled \<and>
        (\<forall>n. pc_reqMsg q = Created n \<longrightarrow> n < created h)" if "q \<in> set (splice1 k ?cbs)" for q
    using inv that set_splice1 [of k ?cbs] by (auto simp add: hub_inv_def)
  have new: "(promises h)[pc_promise ?p := r] ! pc_promise q = Unsettled"
    if "q \<in> set (splice1 k ?cbs)" for q
    using old [OF that] other [OF that] by simp
  have pk: "pc_promise ?p < length (promises h)" "promises h ! pc_promise ?p = Unsettled"
    using inv k by (simp_all add: hub_inv_def)
  have un: "j \<in> pc_promise ` set (splice1 k ?cbs)"
    if "j < length (promises h)" "(promises h)[pc_promise ?p := r] ! j = Unsettled" for j
  proof -
    have ne: "j \<noteq> pc_promise ?p"
      using that pk(1) r by (auto simp: nth_list_update split: if_splits)
    with that(2) have "promises h ! j = Unsettled" by simp
    with inv that(1) obtain q where q: "q \<in> set ?cbs" "pc_promise q = j"
      by (auto simp add: hub_inv_def)
    with ne have "q \<noteq> ?cbs ! k" by auto
    with q(1) have "q \<in> set (splice1 k ?cbs)" by (rule splice1_keeps)
    with q(2) show ?thesis by blast
  qed
  show ?thesis
    using old new d1 d2 un pk
    by (auto simp add: hub_inv_def settle_def map_splice1 distinct_splice1)
qed

lemma hub_inv_onMessage:
  assumes "hub_inv h"
  shows "hub_inv (snd (onMessage inherited target msg h))"
proof (cases msg)
  case None
  with assms show ?thesis by (simp add: onMessage_def)
next
  case (Some m)
  show ?thesis
  proof (cases "isRequest h m")
    case True
    from onMessage_request_frame [OF True] assms Some show ?thesis
      by (metis hub_inv_outbox)
  next
    case False
    show ?thesis
    proof (cases "findIndex (accepts h m) (responseCallbacks h)")
      case None
      with assms Some False show ?thesis by (simp add: onMessage_other)
    next
      case (Some k)
      then have k: "k < length (responseCallbacks h)" by (simp add: findIndex_Some_iff)
      show ?thesis
      proof (cases "isResponse h (store h (pc_reqMsg (responseCallbacks h ! k))) m")
        case True
        then have "snd (callback (responseCallbacks h ! k) m h) =
            settle (pc_promise (responseCallbacks h ! k))
              (if isSuccess m then Resolved (data m) else Rejected (data m)) h"
          by (simp add: callback_def)
        moreover have "(if isSuccess m then Resolved (data m) else Rejected (data m))
            \<noteq> Unsettled" by simp
        ultimately show ?thesis
          using True False Some \<open>msg = Some m\<close> hub_inv_response [OF assms k]
          by (simp add: onMessage_other)
      next
        case nr: False
        from callback_progress [OF nr] assms
        have "hub_inv (snd (callback (responseCallbacks h ! k) m h))"
          by (metis hub_inv_progressCalls)
        with nr False Some \<open>msg = Some m\<close> show ?thesis
          by (simp add: onMessage_other)
      qed
    qed
  qed
qed

lemma hub_inv_step:
  assumes "hub_inv h" "is_emit ope \<longrightarrow> hub_messageID h < 2 ^ 53" "\<not> reuses_pending ope h"
  shows "hub_inv (step inherited ope h)"
  using assms
  by (cases ope) (simp_all add: hub_inv_emit hub_inv_on hub_inv_off hub_inv_onMessage)

lemma no_reuse_snoc:
  "no_reuse inherited (ops @ [ope]) h \<longleftrightarrow>
     no_reuse inherited ops h \<and> \<not> reuses_pending ope (run_ops inherited ops h)"
  by (induction ops arbitrary: h) (simp_all add: run_ops_def)

lemma emit_count_snoc:
  "emit_count (ops @ [ope]) = (if is_emit ope then Suc (emit_count ops) else emit_count ops)"
  by (simp add: emit_count_def)

lemma hub_inv_reachable:
  "int (emit_count ops) \<le> 2 ^ 53 \<Longrightarrow> no_reuse inherited ops (new_hub iid) \<Longrightarrow>
     hub_inv (run_ops inherited ops (new_hub iid))"
proof (induction ops rule: rev_induct)
  case Nil
  show ?case by (simp add: run_ops_def hub_inv_def new_hub_def)
next
  case (snoc ope ops)
  have le: "int (emit_count ops) \<le> 2 ^ 53"
    using snoc.prems(1) by (simp add: emit_count_def split: if_splits)
  have nr: "no_reuse inherited ops (new_hub iid)"
    and nr': "\<not> reuses_pending ope (run_ops inherited ops (new_hub iid))"
    using snoc.prems(2) by (simp_all add: no_reuse_snoc)
  have c: "hub_messageID (run_ops inherited ops (new_hub iid)) = int (emit_count ops)"
    using run_ops_ids [OF le] by simp
  have "is_emit ope \<longrightarrow> hub_messageID (run_ops inherited ops (new_hub iid)) < 2 ^ 53"
    using snoc.prems(1) c by (auto simp add: emit_count_def)
  with snoc.IH [OF le nr] show ?case
    unfolding run_ops_snoc using nr' by (intro hub_inv_step)
qed

subsection \<open>Pending calls and the calls that created them\<close>

lemma onMessage_frame:
  "store (snd (onMessage inherited target msg h)) = store h \<and>
   length (promises (snd (onMessage inherited target msg h))) = length (promises h) \<and>
   set (responseCallbacks (snd (onMessage inherited target msg h))) \<subseteq>
     set (responseCallbacks h)"
proof (cases msg)
  case None
  then show ?thesis by (simp add: onMessage_def)
next
  case (Some m)
  show ?thesis
  proof (cases "isRequest h m")
    case True
    have "snd (onMessage inherited target (Some m) h) =
        h\<lparr>outbox := outbox (snd (onMessage inherited target (Some m) h))\<rparr>"
      using True by (rule onMessage_request_frame)
    then have "store (snd (onMessage inherited target (Some m) h)) = store h"
      "promises (snd (onMessage inherited target (Some m) h)) = promises h"
      "responseCallbacks (snd (onMessage inherited target (Some m) h)) = responseCallbacks h"
      by (metis hub.select_convs hub.surjective hub.update_convs(5))+
    with Some show ?thesis by simp
  next
    case False
    have fr: "store (snd (callback p m h)) = store h \<and>
        length (promises (snd (callback p m h))) = length (promises h) \<and>
        responseCallbacks (snd (callback p m h)) = responseCallbacks h" for p
      using callback_frame [of p m h "fst (callback p m h)" "snd (callback p m h)"] by simp
    have sp: "x \<in> set (splice1 k xs) \<Longrightarrow> x \<in> set xs" for x k and xs :: "pending list"
      using set_splice1 [of k xs] by blast
    show ?thesis
      using Some False fr
      by (auto simp add: onMessage_other split: option.splits dest: sp)
  qed
qed

lemma on_off_frame:
  "store (on target a h) = store h" "promises (on target a h) = promises h"
  "responseCallbacks (on target a h) = responseCallbacks h"
  "store (off target mn h) = store h" "promises (off target mn h) = promises h"
  "responseCallbacks (off target mn h) = responseCallbacks h"
  by (auto simp: on_def off_def Let_def split: option.splits registration.splits)

lemma emit_args_snoc: "emit_args (ops @ [ope]) = emit_args ops @ op_args ope"
  by (simp add: emit_args_def)

lemma length_emit_args: "length (emit_args ops) = emit_count ops"
proof (induction ops)
  case Nil
  show ?case by (simp add: emit_args_def emit_count_def)
next
  case (Cons ope ops)
  then show ?case by (cases ope) (simp_all add: emit_args_def emit_count_def)
qed

lemma calls_inv_step:
  assumes c: "calls_inv ops h" and i: "hub_inv h" and nr: "\<not> reuses_pending ope h"
  shows "calls_inv (ops @ [ope]) (step inherited ope h)"
proof (cases ope)
  case (Emit target mn as)
  let ?cbs = "responseCallbacks h"
  let ?r = "fst (buildReqMessage mn as h)"
  let ?h' = "snd (emit target mn as h)"
  have len: "length (promises h) = emit_count ops" "length (request_ids h) = emit_count ops"
    using c by (simp_all add: calls_inv_def)
  have old: "pc_promise p < emit_count ops \<and>
      args (store h (pc_reqMsg p)) = emit_args ops ! pc_promise p \<and>
      messageID (store h (pc_reqMsg p)) = request_ids h ! pc_promise p \<and>
      (\<forall>n. pc_reqMsg p = Created n \<longrightarrow> n < created h)" if "p \<in> set ?cbs" for p
    using c i that by (simp add: calls_inv_def hub_inv_def)
  have fr: "?r \<notin> pc_reqMsg ` set ?cbs"
    using old nr Emit by (intro emit_fresh_ref) blast+
  have same: "store ?h' (pc_reqMsg p) = store h (pc_reqMsg p)" if "p \<in> set ?cbs" for p
  proof -
    from fr that have "pc_reqMsg p \<noteq> ?r" by (metis imageI)
    then show ?thesis by (simp add: emit_fields(4))
  qed
  have ids: "request_ids ?h' = request_ids h @ [js_increment (hub_messageID h)]"
    by (rule emit_request_ids)
  have args': "emit_args (ops @ [ope]) = emit_args ops @ [as]"
    using Emit by (simp add: emit_args_snoc)
  have all_old: "args (store ?h' (pc_reqMsg p)) = emit_args (ops @ [ope]) ! pc_promise p \<and>
      messageID (store ?h' (pc_reqMsg p)) = request_ids ?h' ! pc_promise p"
    if "p \<in> set ?cbs" for p
    using old [OF that] same [OF that] len
    by (simp add: ids args' nth_append length_emit_args)
  have all_new: "args (store ?h' ?r) = emit_args (ops @ [ope]) ! length (promises h) \<and>
      messageID (store ?h' ?r) = request_ids ?h' ! length (promises h)"
    using len
    by (simp add: emit_fields(4) built_request_fields ids args' nth_append length_emit_args)
  have "calls_inv (ops @ [ope]) ?h'"
    unfolding calls_inv_def
    using all_old all_new len Emit
    by (auto simp add: emit_fields(1,2) ids emit_count_snoc)
  with Emit show ?thesis by simp
next
  case (On target a)
  with c show ?thesis
    by (simp add: calls_inv_def on_off_frame emit_count_snoc emit_args_snoc request_ids_def
        on_frame)
next
  case (Off target mn)
  with c show ?thesis
    by (simp add: calls_inv_def on_off_frame emit_count_snoc emit_args_snoc request_ids_def
        off_frame)
next
  case (Receive target msg)
  let ?h' = "snd (onMessage inherited target msg h)"
  have f: "store ?h' = store h" "length (promises ?h') = length (promises h)"
    "set (responseCallbacks ?h') \<subseteq> set (responseCallbacks h)"
    using onMessage_frame [of inherited target msg h] by simp_all
  have "calls_inv (ops @ [ope]) ?h'"
    unfolding calls_inv_def
    using c f Receive
    by (auto simp add: calls_inv_def onMessage_request_ids emit_count_snoc emit_args_snoc)
  with Receive show ?thesis by simp
qed

lemma calls_inv_reachable:
  "int (emit_count ops) \<le> 2 ^ 53 \<Longrightarrow> no_reuse inherited ops (new_hub iid) \<Longrightarrow>
     calls_inv ops (run_ops inherited ops (new_hub iid))"
proof (induction ops rule: rev_induct)
  case Nil
  show ?case
    by (simp add: run_ops_def calls_inv_def new_hub_def emit_count_def request_ids_def)
next
  case (snoc ope ops)
  have le: "int (emit_count ops) \<le> 2 ^ 53"
    using snoc.prems(1) by (simp add: emit_count_def split: if_splits)
  have nr: "no_reuse inherited ops (new_hub iid)"
    and nr': "\<not> reuses_pending ope (run_ops inherited ops (new_hub iid))"
    using snoc.prems(2) by (simp_all add: no_reuse_snoc)
  from snoc.IH [OF le nr] hub_inv_reachable [OF le nr] nr' show ?case
    unfolding run_ops_snoc by (rule calls_inv_step)
qed

lemma run_ops_instanceID: "instanceID (run_ops inherited ops (new_hub iid)) = iid"
proof (induction ops rule: rev_induct)
  case Nil
  show ?case by (simp add: run_ops_def new_hub_def)
next
  case (snoc ope ops)
  have "instanceID (step inherited ope h) = instanceID h" for h
  proof (cases ope)
    case (Emit target mn as)
    then show ?thesis by (simp add: emit_fields)
  next
    case (On target a)
    then show ?thesis by (auto simp: on_def Let_def split: option.splits)
  next
    case (Off target mn)
    then show ?thesis by (auto simp: off_def Let_def split: option.splits registration.splits)
  next
    case (Receive target msg)
    show ?thesis
    proof (cases msg)
      case None
      with Receive show ?thesis by (simp add: onMessage_def)
    next
      case (Some m)
      show ?thesis
      proof (cases "isRequest h m")
        case True
        have "snd (onMessage inherited target (Some m) h) =
            h\<lparr>outbox := outbox (snd (onMessage inherited target (Some m) h))\<rparr>"
          using True by (rule onMessage_request_frame)
        then have "instanceID (snd (onMessage inherited target (Some m) h)) = instanceID h"
          by (metis hub.select_convs(1) hub.surjective hub.update_convs(5))
        with Receive Some show ?thesis by simp
      next
        case False
        have "instanceID (snd (callback p m h)) = instanceID h" for p
          using callback_frame [of p m h "fst (callback p m h)" "snd (callback p m h)"] by simp
        with Receive Some False show ?thesis
          by (auto simp add: onMessage_other split: option.splits)
      qed
    qed
  qed
  with snoc show ?case by (simp add: run_ops_snoc)
qed

subsection \<open>Settled promises stay settled\<close>

lemma callback_settled:
  assumes "promises h ! j \<noteq> Unsettled"
  shows "promises (snd (callback p msg h)) ! j = promises h ! j"
    and "length (promises (snd (callback p msg h))) = length (promises h)"
  using assms
  by (auto simp add: callback_def Let_def settle_def nth_list_update split: list.splits)

lemma onMessage_settled:
  assumes "promises h ! j \<noteq> Unsettled"
  shows "promises (snd (onMessage inherited target msg h)) ! j = promises h ! j \<and>
         length (promises (snd (onMessage inherited target msg h))) = length (promises h)"
proof (cases msg)
  case None
  then show ?thesis by (simp add: onMessage_def)
next
  case (Some m)
  show ?thesis
  proof (cases "isRequest h m")
    case True
    have "promises (snd (onMessage inherited target (Some m) h)) = promises h"
      using onMessage_request_frame [OF True, of inherited target]
      by (metis hub.select_convs(6) hub.surjective hub.update_convs(5))
    with Some show ?thesis by simp
  next
    case False
    with Some assms show ?thesis
      by (auto simp add: onMessage_other callback_settled split: option.splits)
  qed
qed

lemma step_settled:
  assumes "j < length (promises h)" "promises h ! j \<noteq> Unsettled"
  shows "j < length (promises (step inherited ope h)) \<and>
         promises (step inherited ope h) ! j = promises h ! j"
proof (cases ope)
  case (Emit target mn as)
  with assms show ?thesis
    by (simp add: emit_fields nth_append)
next
  case (On target a)
  with assms show ?thesis by (auto simp: on_def Let_def split: option.splits)
next
  case (Off target mn)
  with assms show ?thesis
    by (auto simp: off_def Let_def split: option.splits registration.splits)
next
  case (Receive target msg)
  with assms onMessage_settled [OF assms(2), of inherited target msg] show ?thesis by simp
qed

lemma run_ops_settled:
  "j < length (promises h) \<Longrightarrow> promises h ! j \<noteq> Unsettled \<Longrightarrow>
     promises (run_ops inherited ops h) ! j = promises h ! j"
proof (induction ops arbitrary: h)
  case Nil
  show ?case by (simp add: run_ops_def)
next
  case (Cons ope ops)
  from step_settled [OF Cons.prems, of inherited ope]
  have s: "j < length (promises (step inherited ope h))"
    "promises (step inherited ope h) ! j = promises h ! j" by simp_all
  have "promises (run_ops inherited ops (step inherited ope h)) ! j =
      promises (step inherited ope h) ! j"
    using Cons.IH [of "step inherited ope h"] s Cons.prems by simp
  with s show ?case by (simp add: run_ops_def)
qed

subsection \<open>The example hubs\<close>

lemma hub_alice_eq:
  "hub_alice = \<lparr>instanceID = ''alice'', eventHandlerMap = [],
      responseCallbacks = [\<lparr>pc_target = ''bob'', pc_reqMsg = Created 0, pc_promise = 0\<rparr>],
      hub_messageID = 1,
      outbox = [(''bob'', req_work\<lparr>progress := True, args := [VObj [(''n'', VNum 5)]]\<rparr>)],
      promises = [Unsettled], progressCalls = [],
      store = (\<lambda>r. basicCfg [])(Created 0 := req_work), created = 1\<rparr>"
  by (simp add: hub_alice_def ops_alice_def run_ops_def req_work_def hub_eval)

lemma ops_alice_ok:
  "int (emit_count ops_alice) \<le> 2 ^ 53" "no_reuse (\<lambda>m. None) ops_alice (new_hub ''alice'')"
  "emit_args ops_alice = [[VObj [(''onprogress'', VFun (UserFn 7) []), (''n'', VNum 5)]]]"
  by (simp_all add: ops_alice_def emit_count_def emit_args_def)

lemma hub_twins_eq:
  "hub_twins = \<lparr>instanceID = ''alice'', eventHandlerMap = [],
      responseCallbacks =
        [\<lparr>pc_target = ''bob'', pc_reqMsg = Config 0, pc_promise = 0\<rparr>,
         \<lparr>pc_target = ''carol'', pc_reqMsg = Config 0, pc_promise = 1\<rparr>],
      hub_messageID = 2,
      outbox =
        [(''bob'', (basicCfg ''work'')
            \<lparr>fromInstance := ''alice'', messageID := 1, msg_type := TRequest,
             args := [VObj []], progress := True\<rparr>),
         (''carol'', (basicCfg ''work'')
            \<lparr>fromInstance := ''alice'', messageID := 2, msg_type := TRequest,
             args := [VObj []], progress := True\<rparr>)],
      promises = [Unsettled, Unsettled], progressCalls = [],
      store = (\<lambda>r. basicCfg [])
        (Config 0 := (basicCfg ''work'')
            \<lparr>fromInstance := ''alice'', messageID := 2, msg_type := TRequest,
             args := [VObj [(''onprogress'', VFun (UserFn 8) [])]]\<rparr>),
      created = 0\<rparr>"
  by (simp add: hub_twins_def hub_first_def hub_eval)

lemma hub_again_eq:
  "responseCallbacks hub_again = [\<lparr>pc_target = ''bob'', pc_reqMsg = Config 0, pc_promise = 1\<rparr>]"
  "promises hub_again = [Resolved (VNum 10), Unsettled]"
  "request_ids hub_again = [1, 2]"
  "store hub_again (Config 0) =
     (basicCfg ''work'')
       \<lparr>fromInstance := ''alice'', messageID := 2, msg_type := TRequest, args := [VNum 2]\<rparr>"
  "instanceID hub_again = ''alice''"
  by (simp_all add: hub_again_def ops_again_def run_ops_def reply_def request_ids_def hub_eval)

lemma ops_again_ok:
  "int (emit_count ops_again) \<le> 2 ^ 53" "no_reuse (\<lambda>m. None) ops_again (new_hub ''alice'')"
  by (simp_all add: ops_again_def emit_count_def reply_def hub_eval)

subsection \<open>Delivery of inbound responses and progress\<close>

text \<open>
  Claim C9. For every inbound message that is not a request, \<open>_onMessage\<close> resolves and
  the scan of the pending calls stops at the first callback that reports a match: if
  none matches, the hub is unchanged; if the \<open>k\<close>-th is the first that matches, the hub
  is what that one callback leaves, with entry \<open>k\<close> removed when the message is a terminal
  response and the table as it was when it is a progress message. So at most one entry
  is removed and at most one promise changes per message, also when several pending
  calls would accept it.
\<close>

theorem onMessage_consumes_first_match:
  assumes "\<not> isRequest h msg"
  shows "\<exists>h'. onMessage inherited target (Some msg) h = (Resolved (), h') \<and>
     ((\<forall>p\<in>set (responseCallbacks h). \<not> accepts h msg p) \<longrightarrow> h' = h) \<and>
     (\<forall>k. k < length (responseCallbacks h) \<and> accepts h msg (responseCallbacks h ! k) \<and>
          (\<forall>j<k. \<not> accepts h msg (responseCallbacks h ! j)) \<longrightarrow>
          h' = (snd (callback (responseCallbacks h ! k) msg h))
                 \<lparr>responseCallbacks :=
                    if msg_type msg = TResponse then splice1 k (responseCallbacks h)
                    else responseCallbacks h\<rparr>) \<and>
     length (responseCallbacks h) \<le> Suc (length (responseCallbacks h')) \<and>
     (\<exists>q. \<forall>j. j \<noteq> q \<longrightarrow> promises h' ! j = promises h ! j)"
proof (cases "findIndex (accepts h msg) (responseCallbacks h)")
  case None
  then have "onMessage inherited target (Some msg) h = (Resolved (), h)"
    using assms by (simp add: onMessage_other)
  moreover
  have "\<not> (k < length (responseCallbacks h) \<and> accepts h msg (responseCallbacks h ! k))" for k
    using None by (auto simp: findIndex_None_iff)
  ultimately show ?thesis by auto
next
  case (Some k)
  let ?p = "responseCallbacks h ! k"
  let ?h1 = "snd (callback ?p msg h)"
  from Some have k: "k < length (responseCallbacks h)" "accepts h msg ?p"
    "\<forall>j<k. \<not> accepts h msg (responseCallbacks h ! j)"
    by (simp_all add: findIndex_Some_iff)
  have cb: "responseCallbacks ?h1 = responseCallbacks h"
    by (simp add: callback_def Let_def split: list.splits)
  have ty: "isResponse h (store h (pc_reqMsg ?p)) msg \<longleftrightarrow> msg_type msg = TResponse"
    using k(2) by (auto simp: accepts_def isResponse_def isProgress_def)
  define h' where "h' = ?h1\<lparr>responseCallbacks :=
                    if msg_type msg = TResponse then splice1 k (responseCallbacks h)
                    else responseCallbacks h\<rparr>"
  have om: "onMessage inherited target (Some msg) h = (Resolved (), h')"
    using assms Some cb by (simp add: onMessage_other ty h'_def)
  have first: "k' = k"
    if "k' < length (responseCallbacks h) \<and> accepts h msg (responseCallbacks h ! k') \<and>
          (\<forall>j<k'. \<not> accepts h msg (responseCallbacks h ! j))" for k'
    using that k by (meson linorder_neqE_nat)
  have len: "length (responseCallbacks h) \<le> Suc (length (responseCallbacks h'))"
    using k(1) by (auto simp: h'_def splice1_def)
  have pr: "\<forall>j. j \<noteq> pc_promise ?p \<longrightarrow> promises h' ! j = promises h ! j"
    by (auto simp: h'_def callback_def Let_def settle_def split: list.splits)
  have none: "\<not> (\<forall>p\<in>set (responseCallbacks h). \<not> accepts h msg p)"
    using k(1,2) by (meson nth_mem)
  show ?thesis
    using om first len pr none h'_def by blast
qed

text \<open>
  The theorem at a state in which two pending calls accept the same response (two calls
  made with one configuration object): the first is settled and removed, the second
  stays.
\<close>

theorem onMessage_consumes_first_match_witness:
  "\<not> isRequest hub_twins (reply ''bob'' 2 TResponse True (VNum 3)) \<and>
   accepts hub_twins (reply ''bob'' 2 TResponse True (VNum 3)) (responseCallbacks hub_twins ! 0) \<and>
   accepts hub_twins (reply ''bob'' 2 TResponse True (VNum 3)) (responseCallbacks hub_twins ! 1) \<and>
   responseCallbacks (snd (onMessage (\<lambda>m. None) ''bob''
        (Some (reply ''bob'' 2 TResponse True (VNum 3))) hub_twins))
     = [\<lparr>pc_target = ''carol'', pc_reqMsg = Config 0, pc_promise = 1\<rparr>] \<and>
   promises (snd (onMessage (\<lambda>m. None) ''bob''
        (Some (reply ''bob'' 2 TResponse True (VNum 3))) hub_twins))
     = [Resolved (VNum 3), Unsettled]"
proof -
  have nr: "\<not> isRequest hub_twins (reply ''bob'' 2 TResponse True (VNum 3))"
    by (simp add: isRequest_def reply_def)
  from onMessage_consumes_first_match [OF nr, of "\<lambda>m. None" "''bob''"] obtain h'
    where h': "onMessage (\<lambda>m. None) ''bob'' (Some (reply ''bob'' 2 TResponse True (VNum 3)))
                 hub_twins = (Resolved (), h')"
      and len: "length (responseCallbacks hub_twins) \<le> Suc (length (responseCallbacks h'))"
    by blast
  have v: "onMessage (\<lambda>m. None) ''bob'' (Some (reply ''bob'' 2 TResponse True (VNum 3))) hub_twins =
    (Resolved (),
     hub_twins\<lparr>responseCallbacks :=
                  [\<lparr>pc_target = ''carol'', pc_reqMsg = Config 0, pc_promise = 1\<rparr>],
               promises := [Resolved (VNum 3), Unsettled]\<rparr>)"
    by (simp add: hub_twins_eq reply_def hub_eval)
  show ?thesis
    using nr h' len v
    by (simp add: accepts_def isResponse_def hub_twins_eq reply_def basicCfg_def)
qed

text \<open>
  Claim C1, as amended. Take a hub that started fresh and has made at most \<open>2^53\<close>
  \<open>emit\<close> calls, none of them with the configuration object of a call that was
  outstanding then (and the application has left the objects it passed as they were).
  An inbound Response or Progress envelope is delivered to a pending
  call if and only if its \<open>toInstance\<close> equals the hub's \<open>instanceID\<close> and its
  \<open>messageID\<close> equals that of the request that was sent for the call; the
  \<open>fromInstance\<close> of the envelope and the target of the request are not compared. An
  envelope that is not delivered to the call leaves its promise unsettled, and one
  delivered to no call leaves the hub as it is.
\<close>

theorem response_delivery_iff:
  assumes "int (emit_count ops) \<le> 2 ^ 53" and "no_reuse inherited ops (new_hub iid)"
    and "h = run_ops inherited ops (new_hub iid)"
    and "k < length (responseCallbacks h)"
    and "msg_type msg = TResponse \<or> msg_type msg = TProgress"
  shows "\<not> isRequest h msg \<and>
     pc_promise (responseCallbacks h ! k) < length (request_ids h) \<and>
     (matched_call h msg = Some k \<longleftrightarrow>
        toInstance msg = Some iid \<and>
        messageID msg = request_ids h ! pc_promise (responseCallbacks h ! k)) \<and>
     (matched_call h msg \<noteq> Some k \<longrightarrow>
        promises (snd (onMessage inherited target (Some msg) h)) !
          pc_promise (responseCallbacks h ! k) = Unsettled) \<and>
     (matched_call h msg = None \<longrightarrow> onMessage inherited target (Some msg) h = (Resolved (), h))"
proof -
  let ?cbs = "responseCallbacks h"
  have inv: "hub_inv h"
    unfolding assms(3) using assms(1,2) by (rule hub_inv_reachable)
  have ci: "calls_inv ops h"
    unfolding assms(3) using assms(1,2) by (rule calls_inv_reachable)
  have iid: "instanceID h = iid"
    unfolding assms(3) by (rule run_ops_instanceID)
  have mem: "?cbs ! k \<in> set ?cbs" using assms(4) by simp
  have frm: "fromInstance (store h (pc_reqMsg (?cbs ! k))) = instanceID h"
    and un: "promises h ! pc_promise (?cbs ! k) = Unsettled"
    and lt: "pc_promise (?cbs ! k) < length (promises h)"
    using inv mem by (simp_all add: hub_inv_def)
  have mid: "messageID (store h (pc_reqMsg (?cbs ! k))) = request_ids h ! pc_promise (?cbs ! k)"
    using ci mem by (simp add: calls_inv_def)
  have len: "pc_promise (?cbs ! k) < length (request_ids h)"
    using ci lt by (simp add: calls_inv_def)
  have d2: "distinct (map pc_promise ?cbs)"
    using inv by (simp add: hub_inv_def)
  have nr: "\<not> isRequest h msg" using assms(5) by (auto simp: isRequest_def)
  have iff: "matched_call h msg = Some k \<longleftrightarrow>
        toInstance msg = Some iid \<and>
        messageID msg = request_ids h ! pc_promise (?cbs ! k)"
    using assms(5) frm
    by (auto simp: matched_call_eq inv_first_match [OF inv assms(4)] accepts_iff iid mid)
  have none: "onMessage inherited target (Some msg) h = (Resolved (), h)"
    if "matched_call h msg = None"
    using that nr by (simp add: matched_call_eq onMessage_other)
  have other: "promises (snd (onMessage inherited target (Some msg) h)) ! pc_promise (?cbs ! k)
      = Unsettled" if ne: "matched_call h msg \<noteq> Some k"
  proof (cases "matched_call h msg")
    case None
    with none un show ?thesis by simp
  next
    case (Some k')
    then have fi: "findIndex (accepts h msg) ?cbs = Some k'" by (simp add: matched_call_eq)
    then have k': "k' < length ?cbs" by (simp add: findIndex_Some_iff)
    from Some ne have "k' \<noteq> k" by simp
    then have "map pc_promise ?cbs ! k' \<noteq> map pc_promise ?cbs ! k"
      using d2 k' assms(4) by (metis length_map nth_eq_iff_index_eq)
    then have pne: "pc_promise (?cbs ! k') \<noteq> pc_promise (?cbs ! k)"
      using k' assms(4) by simp
    have "promises (snd (callback (?cbs ! k') msg h)) ! pc_promise (?cbs ! k) = Unsettled"
      using un pne by (auto simp: callback_def Let_def settle_def split: list.splits)
    then show ?thesis
      using nr fi by (simp add: onMessage_other)
  qed
  from nr len iff none other show ?thesis by blast
qed

text \<open>
  The theorem at the example hub: a progress envelope from another sender than the
  target is delivered to the call, one with another \<open>messageID\<close> is delivered to none.
  And at a hub that passed one configuration object to a second call after the first
  was answered: a response with the \<open>messageID\<close> 2 of the second request is delivered to
  the second call, one with the \<open>messageID\<close> 1 is not.
\<close>

theorem response_delivery_iff_witness:
  "int (emit_count ops_alice) \<le> 2 ^ 53 \<and> no_reuse (\<lambda>m. None) ops_alice (new_hub ''alice'') \<and>
   0 < length (responseCallbacks hub_alice) \<and>
   request_ids hub_alice ! pc_promise (responseCallbacks hub_alice ! 0) = 1 \<and>
   matched_call hub_alice (reply ''mallory'' 1 TProgress False (VNum 1)) = Some 0 \<and>
   matched_call hub_alice (reply ''bob'' 2 TResponse True (VNum 1)) = None \<and>
   int (emit_count ops_again) \<le> 2 ^ 53 \<and> no_reuse (\<lambda>m. None) ops_again (new_hub ''alice'') \<and>
   0 < length (responseCallbacks hub_again) \<and>
   request_ids hub_again ! pc_promise (responseCallbacks hub_again ! 0) = 2 \<and>
   matched_call hub_again (reply ''bob'' 2 TResponse True (VNum 20)) = Some 0 \<and>
   matched_call hub_again (reply ''bob'' 1 TResponse True (VNum 20)) \<noteq> Some 0"
proof -
  have k: "0 < length (responseCallbacks hub_alice)" by (simp add: hub_alice_eq)
  have r: "request_ids hub_alice ! pc_promise (responseCallbacks hub_alice ! 0) = 1"
    by (simp add: hub_alice_eq request_ids_def req_work_def)
  note c = response_delivery_iff [OF ops_alice_ok(1,2) hub_alice_def k]
  have a: "matched_call hub_alice (reply ''mallory'' 1 TProgress False (VNum 1)) = Some 0"
    using c [of "reply ''mallory'' 1 TProgress False (VNum 1)"] r
    by (simp add: reply_def)
  have b: "matched_call hub_alice (reply ''bob'' 2 TResponse True (VNum 1)) \<noteq> Some 0"
    using c [of "reply ''bob'' 2 TResponse True (VNum 1)"] r
    by (simp add: reply_def)
  have b': "matched_call hub_alice (reply ''bob'' 2 TResponse True (VNum 1)) = None"
    using b by (simp add: hub_alice_eq reply_def req_work_def matched_call_def hub_eval)
  have k2: "0 < length (responseCallbacks hub_again)" by (simp add: hub_again_eq)
  have r2: "request_ids hub_again ! pc_promise (responseCallbacks hub_again ! 0) = 2"
    by (simp add: hub_again_eq)
  note c2 = response_delivery_iff [OF ops_again_ok hub_again_def k2]
  have a2: "matched_call hub_again (reply ''bob'' 2 TResponse True (VNum 20)) = Some 0"
    using c2 [of "reply ''bob'' 2 TResponse True (VNum 20)"] r2
    by (simp add: reply_def)
  have b2: "matched_call hub_again (reply ''bob'' 1 TResponse True (VNum 20)) \<noteq> Some 0"
    using c2 [of "reply ''bob'' 1 TResponse True (VNum 20)"] r2
    by (simp add: reply_def)
  from ops_alice_ok(1,2) k r a b' ops_again_ok k2 r2 a2 b2 show ?thesis by simp
qed

text \<open>
  Claim C3, as amended. Take a hub that started fresh and has made at most \<open>2^53\<close>
  \<open>emit\<close> calls, none of them with the configuration object of a call that was
  outstanding then (and the application has left the objects it passed as they were),
  and an outstanding call of it: a promise \<open>p\<close> that \<open>emit\<close> returned and that is not
  settled. The call has a pending entry, and for an envelope addressed
  to the hub with the \<open>messageID\<close> of the request that was sent for the call: a Progress
  envelope invokes the \<open>onprogress\<close> function of the \<open>args[0]\<close> the caller passed, with
  the envelope's data, and changes nothing else, so the entry stays and the promise is
  not settled; a terminal Response resolves the promise with the data when \<open>isSuccess\<close>
  is true and rejects it with the data otherwise, and removes the entry; after that no
  pending call refers to the promise, and no later call or message changes it.
\<close>

theorem progress_keeps_response_settles:
  assumes "int (emit_count ops) \<le> 2 ^ 53" and "no_reuse inherited ops (new_hub iid)"
    and "h = run_ops inherited ops (new_hub iid)"
    and "p < length (promises h)" and "promises h ! p = Unsettled"
    and "toInstance msg = Some iid"
    and "messageID msg = request_ids h ! p"
  shows
    "\<exists>k<length (responseCallbacks h).
       pc_promise (responseCallbacks h ! k) = p \<and>
       p < length (emit_args ops) \<and> p < length (request_ids h) \<and>
       (msg_type msg = TProgress \<longrightarrow>
          onMessage inherited target (Some msg) h =
            (Resolved (),
             h\<lparr>progressCalls := progressCalls h @
                   onprogress_call (emit_args ops ! p) (data msg)\<rparr>)) \<and>
       (msg_type msg = TResponse \<longrightarrow>
          onMessage inherited target (Some msg) h = (Resolved (), after_response h k msg) \<and>
          promises (after_response h k msg) ! p = outcome msg \<and>
          responseCallbacks h ! k \<notin> set (responseCallbacks (after_response h k msg)) \<and>
          p \<notin> pc_promise ` set (responseCallbacks (after_response h k msg)) \<and>
          (\<forall>ops'. promises (run_ops inherited ops' (after_response h k msg)) ! p =
                     outcome msg))"
proof -
  let ?cbs = "responseCallbacks h"
  have inv: "hub_inv h"
    unfolding assms(3) using assms(1,2) by (rule hub_inv_reachable)
  have ci: "calls_inv ops h"
    unfolding assms(3) using assms(1,2) by (rule calls_inv_reachable)
  have iid: "instanceID h = iid"
    unfolding assms(3) by (rule run_ops_instanceID)
  from inv assms(4,5) have "p \<in> pc_promise ` set ?cbs" by (simp add: hub_inv_def)
  then obtain k where k: "k < length ?cbs" and pk: "pc_promise (?cbs ! k) = p"
    by (auto simp: in_set_conv_nth)
  let ?p = "?cbs ! k"
  have mem: "?p \<in> set ?cbs" using k by simp
  have frm: "fromInstance (store h (pc_reqMsg ?p)) = instanceID h"
    using inv mem by (simp add: hub_inv_def)
  have d2: "distinct (map pc_promise ?cbs)"
    using inv by (simp add: hub_inv_def)
  have mid: "messageID (store h (pc_reqMsg ?p)) = request_ids h ! p"
    and ar: "args (store h (pc_reqMsg ?p)) = emit_args ops ! p"
    using ci mem pk by (simp_all add: calls_inv_def)
  have len: "p < length (emit_args ops)" "p < length (request_ids h)"
    using ci assms(4) by (simp_all add: calls_inv_def length_emit_args)
  have acc: "accepts h msg ?p" if "msg_type msg = TResponse \<or> msg_type msg = TProgress"
    using that assms(6,7) frm by (simp add: accepts_iff iid mid)
  have fi: "findIndex (accepts h msg) ?cbs = Some k"
    if "msg_type msg = TResponse \<or> msg_type msg = TProgress"
    using acc [OF that] inv_first_match [OF inv k] by simp
  have progress_case: "onMessage inherited target (Some msg) h =
        (Resolved (),
         h\<lparr>progressCalls := progressCalls h @ onprogress_call (emit_args ops ! p) (data msg)\<rparr>)"
    if pr: "msg_type msg = TProgress"
  proof -
    have nr: "\<not> isRequest h msg" using pr by (simp add: isRequest_def)
    have "\<not> isResponse h (store h (pc_reqMsg ?p)) msg" using pr by (simp add: isResponse_def)
    moreover have "isProgress h (store h (pc_reqMsg ?p)) msg"
      using acc pr calculation by (simp add: accepts_def)
    ultimately show ?thesis
      using nr fi pr ar [symmetric]
      by (auto simp add: onMessage_other callback_def onprogress_call_def Let_def
          split: list.splits)
  qed
  have response_case:
    "onMessage inherited target (Some msg) h = (Resolved (), after_response h k msg) \<and>
     promises (after_response h k msg) ! p = outcome msg \<and>
     ?p \<notin> set (responseCallbacks (after_response h k msg)) \<and>
     p \<notin> pc_promise ` set (responseCallbacks (after_response h k msg)) \<and>
     (\<forall>ops'. promises (run_ops inherited ops' (after_response h k msg)) ! p = outcome msg)"
    if resp: "msg_type msg = TResponse"
  proof -
    have nr: "\<not> isRequest h msg" using resp by (simp add: isRequest_def)
    have r: "isResponse h (store h (pc_reqMsg ?p)) msg"
      using acc resp by (simp add: accepts_def isProgress_def)
    have om: "onMessage inherited target (Some msg) h = (Resolved (), after_response h k msg)"
      using nr fi resp r assms(4,5) pk
      by (simp add: onMessage_other callback_def settle_def outcome_def after_response_def)
    have v: "promises (after_response h k msg) ! p = outcome msg"
      using assms(4) pk by (simp add: after_response_def)
    have "map pc_promise ?cbs ! k \<notin> set (splice1 k (map pc_promise ?cbs))"
      using d2 k by (intro nth_notin_splice1) simp_all
    then have gone: "p \<notin> pc_promise ` set (responseCallbacks (after_response h k msg))"
      using k pk by (simp add: after_response_def map_splice1 [symmetric])
    then have gone': "?p \<notin> set (responseCallbacks (after_response h k msg))"
      using pk by blast
    have "outcome msg \<noteq> Unsettled" by (simp add: outcome_def)
    with v
    have "promises (run_ops inherited ops' (after_response h k msg)) ! p = outcome msg"
      for ops'
      using run_ops_settled [of p "after_response h k msg" inherited ops'] assms(4)
      by (simp add: after_response_def)
    with om v gone gone' show ?thesis by simp
  qed
  from k pk len progress_case response_case show ?thesis by blast
qed

text \<open>
  The theorem at the example hub: a progress envelope calls \<open>f7\<close> with its data and
  leaves the rest, a successful response resolves the promise, a failed one rejects it,
  and the entry is removed.
\<close>

theorem progress_keeps_response_settles_witness:
  "int (emit_count ops_alice) \<le> 2 ^ 53 \<and> no_reuse (\<lambda>m. None) ops_alice (new_hub ''alice'') \<and>
   0 < length (promises hub_alice) \<and> promises hub_alice ! 0 = Unsettled \<and>
   request_ids hub_alice ! 0 = 1 \<and>
   snd (onMessage (\<lambda>m. None) ''bob'' (Some (reply ''bob'' 1 TProgress False (VNum 50)))
          hub_alice) =
     hub_alice\<lparr>progressCalls := [(VFun (UserFn 7) [], VNum 50)]\<rparr> \<and>
   promises (snd (onMessage (\<lambda>m. None) ''bob''
       (Some (reply ''bob'' 1 TResponse True (VStr ''done''))) hub_alice))
     = [Resolved (VStr ''done'')] \<and>
   promises (snd (onMessage (\<lambda>m. None) ''bob''
       (Some (reply ''bob'' 1 TResponse False (VStr ''failed''))) hub_alice))
     = [Rejected (VStr ''failed'')] \<and>
   responseCallbacks (snd (onMessage (\<lambda>m. None) ''bob''
       (Some (reply ''bob'' 1 TResponse True (VStr ''done''))) hub_alice))
     = []"
proof -
  have l: "0 < length (promises hub_alice)" and u: "promises hub_alice ! 0 = Unsettled"
    by (simp_all add: hub_alice_eq)
  have r: "request_ids hub_alice ! 0 = 1"
    by (simp add: hub_alice_eq request_ids_def req_work_def)
  have t: "toInstance (reply s 1 ty ok d) = Some ''alice''" for s ty ok d
    by (simp add: reply_def)
  have m: "messageID (reply s 1 ty ok d) = request_ids hub_alice ! 0" for s ty ok d
    by (simp add: reply_def r)
  note c = progress_keeps_response_settles
    [OF ops_alice_ok(1,2) hub_alice_def l u t m, of _ _ _ _ "''bob''"]
  have k0: "k = 0" if "k < length (responseCallbacks hub_alice)" for k
    using that by (simp add: hub_alice_eq)
  have p: "snd (onMessage (\<lambda>m. None) ''bob''
        (Some (reply ''bob'' 1 TProgress False (VNum 50))) hub_alice) =
     hub_alice\<lparr>progressCalls := [(VFun (UserFn 7) [], VNum 50)]\<rparr>"
    using c [of "''bob''" TProgress False "VNum 50"]
    by (auto simp add: reply_def ops_alice_ok(3) onprogress_call_def get_prop_def hub_alice_eq)
  have r1: "promises (snd (onMessage (\<lambda>m. None) ''bob''
        (Some (reply ''bob'' 1 TResponse True (VStr ''done''))) hub_alice))
     = [Resolved (VStr ''done'')]"
    and r3: "responseCallbacks (snd (onMessage (\<lambda>m. None) ''bob''
        (Some (reply ''bob'' 1 TResponse True (VStr ''done''))) hub_alice))
     = []"
    using c [of "''bob''" TResponse True "VStr ''done''"]
    by (auto simp add: reply_def hub_alice_eq after_response_def outcome_def splice1_def
        dest: k0)
  have r2: "promises (snd (onMessage (\<lambda>m. None) ''bob''
        (Some (reply ''bob'' 1 TResponse False (VStr ''failed''))) hub_alice))
     = [Rejected (VStr ''failed'')]"
    using c [of "''bob''" TResponse False "VStr ''failed''"]
    by (auto simp add: reply_def hub_alice_eq after_response_def outcome_def splice1_def
        dest: k0)
  from ops_alice_ok(1,2) l u r p r1 r2 r3 show ?thesis by simp
qed

subsection \<open>Beyond \<open>2^53\<close> requests\<close>

text \<open>
  The hub after \<open>n\<close> calls \<open>emit(t, m, ...as)\<close> and no response, for \<open>n\<close> up to \<open>2^53\<close>:
  call \<open>j\<close> is pending with the request identifier \<open>j + 1\<close>.
\<close>

lemma repeated_emit_state:
  "int n \<le> 2 ^ 53 \<Longrightarrow>
     responseCallbacks (run_ops inherited (replicate n (Emit t (MethodName m) as)) (new_hub iid)) =
       map (\<lambda>j. \<lparr>pc_target = t, pc_reqMsg = Created j, pc_promise = j\<rparr>) [0..<n] \<and>
     promises (run_ops inherited (replicate n (Emit t (MethodName m) as)) (new_hub iid)) =
       replicate n Unsettled \<and>
     created (run_ops inherited (replicate n (Emit t (MethodName m) as)) (new_hub iid)) = n \<and>
     (\<forall>j<n. messageID (store (run_ops inherited (replicate n (Emit t (MethodName m) as))
                                 (new_hub iid)) (Created j)) = int j + 1 \<and>
             fromInstance (store (run_ops inherited (replicate n (Emit t (MethodName m) as))
                                    (new_hub iid)) (Created j)) = iid)"
proof (induction n)
  case 0
  show ?case by (simp add: run_ops_def new_hub_def)
next
  case (Suc n)
  let ?E = "Emit t (MethodName m) as"
  let ?h = "run_ops inherited (replicate n ?E) (new_hub iid)"
  have le: "int n \<le> 2 ^ 53" and lt: "int n < 2 ^ 53" using Suc.prems by simp_all
  note ih = Suc.IH [OF le]
  have rep: "replicate (Suc n) ?E = replicate n ?E @ [?E]"
    by (simp add: replicate_append_same)
  have run: "run_ops inherited (replicate (Suc n) ?E) (new_hub iid) =
      snd (emit t (MethodName m) as ?h)"
    unfolding rep run_ops_snoc by simp
  have ec: "emit_count (replicate n ?E) = n" by (simp add: emit_count_def)
  have c: "hub_messageID ?h = int n"
    using run_ops_ids [of "replicate n ?E" inherited iid] le
    unfolding ec by blast
  have i: "instanceID ?h = iid" by (rule run_ops_instanceID)
  have ref: "fst (buildReqMessage (MethodName m) as ?h) = Created n"
    using ih by (simp add: buildReqMessage_ref)
  have inc: "js_increment (int n) = int n + 1" using lt by (simp add: js_increment_def)
  have cbs: "responseCallbacks (snd (emit t (MethodName m) as ?h)) =
      map (\<lambda>j. \<lparr>pc_target = t, pc_reqMsg = Created j, pc_promise = j\<rparr>) [0..<Suc n]"
    using ih by (simp add: emit_fields(1) ref)
  have prs: "promises (snd (emit t (MethodName m) as ?h)) = replicate (Suc n) Unsettled"
    using ih by (simp add: emit_fields(2) replicate_append_same)
  have crt: "created (snd (emit t (MethodName m) as ?h)) = Suc n"
    using ih by (simp add: emit_fields(5))
  have sto: "messageID (store (snd (emit t (MethodName m) as ?h)) (Created j)) = int j + 1 \<and>
      fromInstance (store (snd (emit t (MethodName m) as ?h)) (Created j)) = iid"
    if "j < Suc n" for j
  proof (cases "j = n")
    case True
    then show ?thesis
      by (simp add: emit_fields(4) ref built_request_fields c i inc)
  next
    case False
    with that have "j < n" by simp
    with ih False show ?thesis by (simp add: emit_fields(4) ref)
  qed
  show ?case unfolding run using cbs prs crt sto by blast
qed

text \<open>
  After \<open>2^53\<close> such calls the counter stays at \<open>2^53\<close>: the next call sends this
  identifier again. A response that carries it is delivered to the call before the last,
  and the promise of the last call stays as it is.
\<close>

lemma saturated_response:
  assumes n: "int n = 2 ^ 53"
    and msg: "toInstance msg = Some iid" "messageID msg = int n" "msg_type msg = TResponse"
  shows "request_ids (run_ops inherited (replicate n (Emit t (MethodName m) as) @
                        [Emit t (MethodName m) as]) (new_hub iid)) ! n = int n \<and>
     pc_promise (responseCallbacks (run_ops inherited (replicate n (Emit t (MethodName m) as) @
                        [Emit t (MethodName m) as]) (new_hub iid)) ! n) = n \<and>
     matched_call (run_ops inherited (replicate n (Emit t (MethodName m) as) @
                        [Emit t (MethodName m) as]) (new_hub iid)) msg = Some (n - 1) \<and>
     promises (snd (onMessage inherited target (Some msg)
                 (run_ops inherited (replicate n (Emit t (MethodName m) as) @
                        [Emit t (MethodName m) as]) (new_hub iid)))) ! n = Unsettled \<and>
     promises (snd (onMessage inherited target (Some msg)
                 (run_ops inherited (replicate n (Emit t (MethodName m) as) @
                        [Emit t (MethodName m) as]) (new_hub iid)))) ! (n - 1) = outcome msg"
proof -
  let ?E = "Emit t (MethodName m) as"
  let ?h = "run_ops inherited (replicate n ?E) (new_hub iid)"
  let ?h' = "run_ops inherited (replicate n ?E @ [?E]) (new_hub iid)"
  let ?e = "\<lambda>j. \<lparr>pc_target = t, pc_reqMsg = Created j, pc_promise = j\<rparr>"
  have le: "int n \<le> 2 ^ 53" using n by simp
  have pos: "0 < n" using n by (cases n) simp_all
  note st = repeated_emit_state [OF le, of inherited t m as iid]
  have run: "?h' = snd (emit t (MethodName m) as ?h)" by (simp add: run_ops_snoc)
  have ec: "emit_count (replicate n ?E) = n" by (simp add: emit_count_def)
  have c: "hub_messageID ?h = int n"
    and ids: "request_ids ?h = map int [1..<Suc n]"
    using run_ops_ids [of "replicate n ?E" inherited iid] le
    unfolding ec by blast+
  have i: "instanceID ?h = iid" "instanceID ?h' = iid" by (rule run_ops_instanceID)+
  have ref: "fst (buildReqMessage (MethodName m) as ?h) = Created n"
    using st by (simp add: buildReqMessage_ref)
  have inc: "js_increment (int n) = int n" using n by (simp add: js_increment_def)
  have cbs: "responseCallbacks ?h' = map ?e [0..<n] @ [?e n]"
    unfolding run using st by (simp add: emit_fields(1) ref)
  define ps where "ps = replicate (Suc n) (Unsettled :: jsval promise)"
  have ps: "n - 1 < length ps" "ps ! (n - 1) = Unsettled" "ps ! n = Unsettled"
    unfolding ps_def by (simp, (rule nth_replicate, simp)+)
  have prs: "promises ?h' = ps"
    unfolding run ps_def using st by (simp add: emit_fields(2) replicate_append_same)
  have sto: "messageID (store ?h' (Created j)) = (if j = n then int n else int j + 1) \<and>
      fromInstance (store ?h' (Created j)) = iid" if "j \<le> n" for j
    unfolding run using st that
    by (auto simp add: emit_fields(4) ref built_request_fields c i inc)
  have rid: "request_ids ?h' ! n = int n"
    unfolding run by (simp add: emit_request_ids ids c inc nth_append)
  have nth: "responseCallbacks ?h' ! j = ?e j" if "j \<le> n" for j
    using that by (auto simp add: cbs nth_append)
  have len: "length (responseCallbacks ?h') = Suc n" by (simp add: cbs)
  have acc: "accepts ?h' msg (responseCallbacks ?h' ! j) \<longleftrightarrow> j = n - 1 \<or> j = n" if "j \<le> n" for j
    using that sto [OF that] msg pos
    by (auto simp add: nth accepts_def isResponse_def isProgress_def i)
  have fi: "findIndex (accepts ?h' msg) (responseCallbacks ?h') = Some (n - 1)"
    unfolding findIndex_Some_iff using pos acc len by auto
  have mc: "matched_call ?h' msg = Some (n - 1)"
    using fi by (simp add: matched_call_eq)
  have nr: "\<not> isRequest ?h' msg" using msg(3) by (simp add: isRequest_def)
  have r: "isResponse ?h' (store ?h' (pc_reqMsg (responseCallbacks ?h' ! (n - 1)))) msg"
    using acc [of "n - 1"] msg(3) by (simp add: accepts_def isProgress_def)
  have pk: "pc_promise (responseCallbacks ?h' ! (n - 1)) = n - 1"
    by (simp add: nth)
  have om: "promises (snd (onMessage inherited target (Some msg) ?h')) =
      ps[n - 1 := outcome msg]"
    using nr fi r pk ps
    by (simp add: onMessage_other callback_def settle_def outcome_def prs)
  have last: "pc_promise (responseCallbacks ?h' ! n) = n" by (simp add: nth)
  have a: "promises (snd (onMessage inherited target (Some msg) ?h')) ! n = Unsettled"
    using pos ps by (simp add: om)
  have b: "promises (snd (onMessage inherited target (Some msg) ?h')) ! (n - 1) = outcome msg"
    using ps by (simp add: om)
  from rid last mc a b show ?thesis by blast
qed

text \<open>
  Claim C1 as stated fails. The request went to \<open>bob\<close>, and a response whose
  \<open>fromInstance\<close> is \<open>mallory\<close> is delivered to the pending call and resolves its
  promise. After two calls with one configuration object, an envelope from \<open>bob\<close> for
  the hub with the \<open>messageID\<close> 1 of the first request is delivered to no call. After
  \<open>2^53 + 1\<close> calls, an envelope from \<open>bob\<close> for the hub with the \<open>messageID\<close> of the
  last request is delivered to the call before the last.
\<close>

theorem response_from_other_sender_settles:
  "pc_target (responseCallbacks hub_alice ! 0) = ''bob'' \<and>
   fromInstance (reply ''mallory'' 1 TResponse True (VNum 42)) = ''mallory'' \<and>
   matched_call hub_alice (reply ''mallory'' 1 TResponse True (VNum 42)) = Some 0 \<and>
   promises (snd (onMessage (\<lambda>m. None) ''mallory''
                    (Some (reply ''mallory'' 1 TResponse True (VNum 42))) hub_alice)) =
     [Resolved (VNum 42)] \<and>
   map pc_target (responseCallbacks hub_twins) = [''bob'', ''carol''] \<and>
   map pc_promise (responseCallbacks hub_twins) = [0, 1] \<and>
   request_ids hub_twins = [1, 2] \<and>
   matched_call hub_twins (reply ''bob'' 1 TResponse True (VNum 42)) = None \<and>
   pc_promise (responseCallbacks hub_saturated ! (2 ^ 53)) = 2 ^ 53 \<and>
   request_ids hub_saturated ! (2 ^ 53) = 2 ^ 53 \<and>
   matched_call hub_saturated (reply ''bob'' (2 ^ 53) TResponse True (VNum 42)) =
     Some (2 ^ 53 - 1)"
proof -
  have a: "pc_target (responseCallbacks hub_alice ! 0) = ''bob'' \<and>
     fromInstance (reply ''mallory'' 1 TResponse True (VNum 42)) = ''mallory'' \<and>
     matched_call hub_alice (reply ''mallory'' 1 TResponse True (VNum 42)) = Some 0 \<and>
     promises (snd (onMessage (\<lambda>m. None) ''mallory''
                      (Some (reply ''mallory'' 1 TResponse True (VNum 42))) hub_alice)) =
       [Resolved (VNum 42)]"
    by (simp add: hub_alice_eq reply_def req_work_def matched_call_def hub_eval)
  have b: "map pc_target (responseCallbacks hub_twins) = [''bob'', ''carol''] \<and>
     map pc_promise (responseCallbacks hub_twins) = [0, 1] \<and>
     request_ids hub_twins = [1, 2] \<and>
     matched_call hub_twins (reply ''bob'' 1 TResponse True (VNum 42)) = None"
    by (simp add: hub_twins_eq reply_def request_ids_def matched_call_def hub_eval)
  have n: "int (2 ^ 53) = 2 ^ 53" by simp
  have m: "toInstance (reply ''bob'' (2 ^ 53) TResponse True (VNum 42)) = Some ''alice''"
    "messageID (reply ''bob'' (2 ^ 53) TResponse True (VNum 42)) = int (2 ^ 53)"
    "msg_type (reply ''bob'' (2 ^ 53) TResponse True (VNum 42)) = TResponse"
    by (simp_all add: reply_def)
  note s = saturated_response
    [OF n m, of "\<lambda>m. None" "''bob''" "''ping''" "[]" "''bob''", folded hub_saturated_def]
  have c: "pc_promise (responseCallbacks hub_saturated ! (2 ^ 53)) = 2 ^ 53 \<and>
     request_ids hub_saturated ! (2 ^ 53) = 2 ^ 53 \<and>
     matched_call hub_saturated (reply ''bob'' (2 ^ 53) TResponse True (VNum 42)) =
       Some (2 ^ 53 - 1)"
    using s by simp
  from a b c show ?thesis by blast
qed

text \<open>
  Claim C3 as stated fails. After two calls with one configuration object, both still
  outstanding, a successful terminal response for the hub with the \<open>messageID\<close> 2 of the
  second request resolves the promise of the first call and removes its entry; the
  promise of the second call is not settled. A response with the \<open>messageID\<close> 1 of the
  first request changes nothing. After \<open>2^53 + 1\<close> calls, a terminal response with the
  \<open>messageID\<close> of the last request settles the promise of the call before the last and
  not that of the last.
\<close>

theorem reused_config_settles_other_call:
  "promises hub_twins = [Unsettled, Unsettled] \<and>
   map pc_promise (responseCallbacks hub_twins) = [0, 1] \<and>
   request_ids hub_twins = [1, 2] \<and>
   toInstance (reply ''carol'' 2 TResponse True (VStr ''r2'')) = Some (instanceID hub_twins) \<and>
   promises (snd (onMessage (\<lambda>m. None) ''carol''
       (Some (reply ''carol'' 2 TResponse True (VStr ''r2''))) hub_twins)) =
     [Resolved (VStr ''r2''), Unsettled] \<and>
   map pc_promise (responseCallbacks (snd (onMessage (\<lambda>m. None) ''carol''
       (Some (reply ''carol'' 2 TResponse True (VStr ''r2''))) hub_twins))) = [1] \<and>
   snd (onMessage (\<lambda>m. None) ''bob''
       (Some (reply ''bob'' 1 TResponse True (VStr ''r1''))) hub_twins) = hub_twins \<and>
   length (promises hub_saturated) = 2 ^ 53 + 1 \<and>
   request_ids hub_saturated ! (2 ^ 53) = 2 ^ 53 \<and>
   promises (snd (onMessage (\<lambda>m. None) ''bob''
       (Some (reply ''bob'' (2 ^ 53) TResponse True (VStr ''r''))) hub_saturated)) ! (2 ^ 53) =
     Unsettled \<and>
   promises (snd (onMessage (\<lambda>m. None) ''bob''
       (Some (reply ''bob'' (2 ^ 53) TResponse True (VStr ''r''))) hub_saturated)) !
       (2 ^ 53 - 1) =
     Resolved (VStr ''r'')"
proof -
  have a: "promises hub_twins = [Unsettled, Unsettled] \<and>
     map pc_promise (responseCallbacks hub_twins) = [0, 1] \<and>
     request_ids hub_twins = [1, 2] \<and>
     toInstance (reply ''carol'' 2 TResponse True (VStr ''r2'')) = Some (instanceID hub_twins)"
    by (simp add: hub_twins_eq reply_def request_ids_def)
  have b: "promises (snd (onMessage (\<lambda>m. None) ''carol''
         (Some (reply ''carol'' 2 TResponse True (VStr ''r2''))) hub_twins)) =
       [Resolved (VStr ''r2''), Unsettled] \<and>
     map pc_promise (responseCallbacks (snd (onMessage (\<lambda>m. None) ''carol''
         (Some (reply ''carol'' 2 TResponse True (VStr ''r2''))) hub_twins))) = [1]"
    by (simp add: hub_twins_eq reply_def hub_eval)
  have c: "snd (onMessage (\<lambda>m. None) ''bob''
       (Some (reply ''bob'' 1 TResponse True (VStr ''r1''))) hub_twins) = hub_twins"
    by (simp add: hub_twins_eq reply_def hub_eval)
  have n: "int (2 ^ 53) = 2 ^ 53" by simp
  have m: "toInstance (reply ''bob'' (2 ^ 53) TResponse True (VStr ''r'')) = Some ''alice''"
    "messageID (reply ''bob'' (2 ^ 53) TResponse True (VStr ''r'')) = int (2 ^ 53)"
    "msg_type (reply ''bob'' (2 ^ 53) TResponse True (VStr ''r'')) = TResponse"
    by (simp_all add: reply_def)
  note s = saturated_response
    [OF n m, of "\<lambda>m. None" "''bob''" "''ping''" "[]" "''bob''", folded hub_saturated_def]
  have le: "int (2 ^ 53) \<le> 2 ^ 53" by simp
  have l: "length (promises hub_saturated) = 2 ^ 53 + 1"
    using repeated_emit_state [OF le, of "\<lambda>m. None" "''bob''" "''ping''" "[]" "''alice''"]
    unfolding hub_saturated_def run_ops_snoc
    by (simp add: emit_fields(2))
  have d: "request_ids hub_saturated ! (2 ^ 53) = 2 ^ 53 \<and>
     promises (snd (onMessage (\<lambda>m. None) ''bob''
         (Some (reply ''bob'' (2 ^ 53) TResponse True (VStr ''r''))) hub_saturated)) !
         (2 ^ 53) = Unsettled \<and>
     promises (snd (onMessage (\<lambda>m. None) ''bob''
         (Some (reply ''bob'' (2 ^ 53) TResponse True (VStr ''r''))) hub_saturated)) !
         (2 ^ 53 - 1) = Resolved (VStr ''r'')"
    using s by (simp add: outcome_def reply_def)
  from a b c l d show ?thesis by blast
qed

subsection \<open>Requests without a handler\<close>

lemma attach_fields:
  "attach_onprogress msg = Some (msg', attached) \<Longrightarrow>
     methodName msg' = methodName msg \<and> fromInstance msg' = fromInstance msg \<and>
     messageID msg' = messageID msg"
  by (auto simp: attach_onprogress_def split: list.splits if_splits option.splits)

text \<open>
  When the progress closure can be attached (or need not be), a request for which no
  method is resolved is answered with a failure response that carries the request's
  \<open>messageID\<close> and names the requester.
\<close>

lemma no_handler_failure_response:
  assumes "isRequest h msg" and "attach_onprogress msg = Some (msg', attached)"
    and "fst (resolve_method inherited (matchedMap target h) msg') = None"
  shows "onMessage inherited target (Some msg) h =
     (Resolved (),
      sendMessage target
        (buildRespMessage
           (js_error ''Error''
              (''[MessageHub] no corresponding handler found for '' @ methodName msg))
           msg False h) h)"
proof -
  obtain as where r: "resolve_method inherited (matchedMap target h) msg' = (None, as)"
    using assms(3) by (cases "resolve_method inherited (matchedMap target h) msg'") simp
  have b: "buildRespMessage d msg' ok h = buildRespMessage d msg ok h" for d ok
    using attach_fields [OF assms(2)] by (simp add: buildRespMessage_def)
  have f: "methodName msg' = methodName msg"
    using attach_fields [OF assms(2)] by simp
  have rm: "runMsgCallback inherited target msg' h =
      ([], Some (Inl (buildRespMessage
         (js_error ''Error''
            (''[MessageHub] no corresponding handler found for '' @ methodName msg))
         msg False h)))"
    by (simp add: runMsgCallback_def r b f)
  show ?thesis
    by (simp add: onMessage_def assms(1,2) rm)
qed

text \<open>
  Claim C7 fails on the code at a request that carries \<open>progress: true\<close> and a truthy
  primitive as \<open>args[0]\<close>. The hub \<open>hub-b\<close> sends such a request with
  \<open>emit(target, {methodName: 'nope', progress: true}, 5)\<close>; at the receiving hub, which
  has no handler at all, \<open>msg.args[0].onprogress = ...\<close> throws before
  \<open>_runMsgCallback\<close> is reached and outside every \<open>try\<close>: the promise of \<open>_onMessage\<close>
  rejects and nothing is sent, so the caller's promise stays pending.
\<close>

theorem no_handler_request_unanswered:
  "outbox (snd (emit ''to-a'' (MethodConfig 0 ((basicCfg ''nope'')\<lparr>progress := True\<rparr>)) [VNum 5]
                  (new_hub ''hub-b''))) =
     [(''to-a'',
       \<lparr>fromInstance = ''hub-b'', toInstance = None, messageID = 1, msg_type = TRequest,
        methodName = ''nope'', args = [VNum 5], progress = True, isSuccess = False,
        data = VUndefined\<rparr>)] \<and>
   isRequest (new_hub ''hub-a'')
     \<lparr>fromInstance = ''hub-b'', toInstance = None, messageID = 1, msg_type = TRequest,
      methodName = ''nope'', args = [VNum 5], progress = True, isSuccess = False,
      data = VUndefined\<rparr> \<and>
   onMessage (\<lambda>m. None) ''from-b''
     (Some \<lparr>fromInstance = ''hub-b'', toInstance = None, messageID = 1, msg_type = TRequest,
            methodName = ''nope'', args = [VNum 5], progress = True, isSuccess = False,
            data = VUndefined\<rparr>)
     (new_hub ''hub-a'') =
     (Rejected (js_error ''TypeError'' ''Cannot create property onprogress''),
      new_hub ''hub-a'') \<and>
   outbox (new_hub ''hub-a'') = []"
  by (simp add: hub_eval)

subsection \<open>Removing handlers\<close>

lemma findIndex_fst:
  assumes "distinct (map fst xs)" "(t, r) \<in> set xs"
  shows "\<exists>i. findIndex (\<lambda>pair. fst pair = t) xs = Some i \<and> i < length xs \<and> xs ! i = (t, r)"
  using assms
proof (induction xs)
  case Nil
  then show ?case by simp
next
  case (Cons x xs)
  show ?case
  proof (cases "fst x = t")
    case True
    with Cons.prems have "x = (t, r)" by (cases x) (auto simp: image_iff)
    with True show ?thesis by simp
  next
    case False
    with Cons obtain i
      where "findIndex (\<lambda>pair. fst pair = t) xs = Some i" "i < length xs" "xs ! i = (t, r)"
      by auto
    with False show ?thesis by simp
  qed
qed

lemma splice1_removes_key:
  assumes "distinct (map fst xs)" "i < length xs"
  shows "fst (xs ! i) \<notin> fst ` set (splice1 i xs)"
proof -
  have "map fst xs ! i \<notin> set (splice1 i (map fst xs))"
    using assms by (intro nth_notin_splice1) simp_all
  then show ?thesis using assms(2) by (simp add: map_splice1 [symmetric])
qed

text \<open>\<open>_on\<close> keeps at most one registration per target.\<close>

lemma on_distinct:
  assumes "distinct (map fst (eventHandlerMap h))"
  shows "distinct (map fst (eventHandlerMap (on target a h)))"
proof (cases "findIndex (\<lambda>pair. fst pair = target) (eventHandlerMap h)")
  case None
  then have "target \<notin> fst ` set (eventHandlerMap h)"
    by (auto simp: findIndex_None_iff)
  with assms None show ?thesis by (auto simp: on_def Let_def)
next
  case (Some i)
  then have i: "i < length (eventHandlerMap h)" "fst (eventHandlerMap h ! i) = target"
    by (simp_all add: findIndex_Some_iff)
  have "map fst (list_update (eventHandlerMap h) i (target, r)) = map fst (eventHandlerMap h)"
    for r
    using i by (simp add: map_update list_update_same_conv)
  with assms Some show ?thesis by (simp add: on_def Let_def)
qed

lemma hub_catch_all_eq: "eventHandlerMap hub_catch_all = [(''peer'', HandlerFn h_const)]"
  by (simp add: hub_catch_all_def on_def new_hub_def)

text \<open>
  Claim C10, as amended. If the registration stored for a target is a single catch-all
  function, then \<open>_off(target, methodName)\<close> with a non-empty \<open>methodName\<close> leaves the
  hub unchanged; \<open>_off(target)\<close> with the \<open>methodName\<close> omitted, or with the empty string
  as \<open>methodName\<close>, removes the registration; and no \<open>_off\<close> for another target removes
  it.
\<close>

theorem off_method_keeps_catch_all:
  assumes "distinct (map fst (eventHandlerMap h))"
    and "(target, HandlerFn f) \<in> set (eventHandlerMap h)"
  shows "(m \<noteq> [] \<longrightarrow> off target (Some m) h = h) \<and>
         target \<notin> fst ` set (eventHandlerMap (off target None h)) \<and>
         target \<notin> fst ` set (eventHandlerMap (off target (Some []) h)) \<and>
         (target' \<noteq> target \<longrightarrow>
            (target, HandlerFn f) \<in> set (eventHandlerMap (off target' mn h)))"
proof -
  let ?xs = "eventHandlerMap h"
  from findIndex_fst [OF assms] obtain i
    where i: "findIndex (\<lambda>pair. fst pair = target) ?xs = Some i" "i < length ?xs"
      "?xs ! i = (target, HandlerFn f)" by blast
  have a: "m \<noteq> [] \<longrightarrow> off target (Some m) h = h"
    using i by (simp add: off_def)
  have "fst (?xs ! i) \<notin> fst ` set (splice1 i ?xs)"
    using assms(1) i(2) by (rule splice1_removes_key)
  then have b: "target \<notin> fst ` set (splice1 i ?xs)" using i(3) by simp
  have c: "target' \<noteq> target \<longrightarrow>
      (target, HandlerFn f) \<in> set (eventHandlerMap (off target' mn h))"
  proof
    assume ne: "target' \<noteq> target"
    show "(target, HandlerFn f) \<in> set (eventHandlerMap (off target' mn h))"
    proof (cases "findIndex (\<lambda>pair. fst pair = target') ?xs")
      case None
      with assms(2) show ?thesis by (simp add: off_def)
    next
      case (Some j)
      then have j: "j < length ?xs" "fst (?xs ! j) = target'"
        by (simp_all add: findIndex_Some_iff)
      with ne have neq: "(target, HandlerFn f) \<noteq> ?xs ! j" by (metis fst_conv)
      have keep: "(target, HandlerFn f) \<in> set (splice1 j ?xs)"
        using assms(2) neq by (rule splice1_keeps)
      have upd: "(target, HandlerFn f) \<in> set (list_update ?xs j y)" if "fst y = target'" for y
      proof -
        have "i \<noteq> j" using i(3) neq by auto
        then have "list_update ?xs j y ! i = (target, HandlerFn f)" using i by simp
        then show ?thesis using i(2) by (metis length_list_update nth_mem)
      qed
      show ?thesis
        using Some keep upd assms(2)
        by (auto simp add: off_def Let_def split: option.splits registration.splits)
    qed
  qed
  have "eventHandlerMap (off target None h) = splice1 i ?xs"
    using i(1) by (simp add: off_def)
  with b have b1: "target \<notin> fst ` set (eventHandlerMap (off target None h))" by simp
  have "eventHandlerMap (off target (Some []) h) = splice1 i ?xs"
    using i(1) by (simp add: off_def)
  with b have b2: "target \<notin> fst ` set (eventHandlerMap (off target (Some []) h))" by simp
  from a b1 b2 c show ?thesis by blast
qed

text \<open>
  The theorem at a hub with one catch-all registration: \<open>_off('peer', 'add')\<close> changes
  nothing, \<open>_off('peer')\<close> empties the list.
\<close>

theorem off_method_keeps_catch_all_witness:
  "distinct (map fst (eventHandlerMap hub_catch_all)) \<and>
   (''peer'', HandlerFn h_const) \<in> set (eventHandlerMap hub_catch_all) \<and>
   off ''peer'' (Some ''add'') hub_catch_all = hub_catch_all \<and>
   eventHandlerMap (off ''peer'' None hub_catch_all) = []"
proof -
  have d: "distinct (map fst (eventHandlerMap hub_catch_all))" by (simp add: hub_catch_all_eq)
  have m: "(''peer'', HandlerFn h_const) \<in> set (eventHandlerMap hub_catch_all)"
    by (simp add: hub_catch_all_eq)
  have "eventHandlerMap (off ''peer'' None hub_catch_all) = []"
    by (simp add: hub_catch_all_eq off_def splice1_def)
  with off_method_keeps_catch_all [OF d m, of "''add''"] d m show ?thesis by simp
qed

text \<open>
  Claim C10 as stated fails: the empty string is a \<open>methodName\<close> that is supplied, and
  \<open>_off('peer', '')\<close> removes the catch-all registration (\<open>!methodName\<close> holds for it).
\<close>

theorem off_empty_method_removes_catch_all:
  "eventHandlerMap hub_catch_all = [(''peer'', HandlerFn h_const)] \<and>
   eventHandlerMap (off ''peer'' (Some []) hub_catch_all) = []"
  by (simp add: hub_catch_all_eq off_def splice1_def)

section \<open>The routing trie: properties\<close>

lemma js_indexOf_ge: "- 1 \<le> js_indexOf s t"
  by (induction s) (auto simp: Let_def)

text \<open>\<open>s.indexOf(t) === 0\<close> is the prefix test, \<open>s.indexOf(t) !== -1\<close> the substring test.\<close>

lemma js_indexOf_prefix: "js_indexOf s t = 0 \<longleftrightarrow> prefix t s"
  using js_indexOf_ge [of "tl s" t]
  by (cases s) (auto simp: Let_def)

lemma js_indexOf_sublist: "js_indexOf s t \<noteq> - 1 \<longleftrightarrow> sublist t s"
proof (induction s)
  case Nil
  show ?case by simp
next
  case (Cons c cs)
  have "js_indexOf (c # cs) t \<noteq> - 1 \<longleftrightarrow> prefix t (c # cs) \<or> js_indexOf cs t \<noteq> - 1"
    using js_indexOf_ge [of cs t] by (auto simp: Let_def)
  with Cons show ?case by (simp add: sublist_Cons_right)
qed

lemma gm_loop_descend: "gm_loop e t s = s @ descend e t"
proof (induction e t s rule: gm_loop.induct)
  case (1 e s)
  show ?case by simp
next
  case (2 e t s)
  show ?case
  proof (cases "find (\<lambda>k. sublist k e) (object_keys t)")
    case None
    then show ?thesis by (simp add: js_indexOf_sublist)
  next
    case (Some i)
    show ?thesis
    proof (cases "map_of t i")
      case None
      with Some show ?thesis by (simp add: js_indexOf_sublist)
    next
      case (Some ti)
      with \<open>find (\<lambda>k. sublist k e) (object_keys t) = Some i\<close> 2 [of i ti] show ?thesis
        by (simp add: js_indexOf_sublist)
    qed
  qed
qed

lemmas trie_eval = addMiddleware_def getMiddlewares_def add_level.simps object_keys_def
  is_array_index_def is_digit_def index_value_def

text \<open>
  Claim C6. For every trie and every channel string, \<open>getMiddlewares\<close> returns the
  wildcard node's list followed by the lists met on the descent that the specification
  describes: level by level, at each level the first key that occurs anywhere inside the
  channel string (a substring test, not a prefix test), that node's list, then its
  children, until no key matches. The descent starts below the wildcard node when there
  is one and at the root when there is none.
\<close>

theorem getMiddlewares_refines_spec: "getMiddlewares c ch = spec_getMiddlewares c ch"
  by (simp add: getMiddlewares_def spec_getMiddlewares_def gm_loop_descend split: option.splits)

text \<open>
  The theorem at a trie whose key \<open>bc\<close> is inside the channel \<open>abc\<close> without being a
  prefix of it: the wildcard's list, then the lists of \<open>bc\<close> and of its child \<open>c\<close>.
\<close>

theorem getMiddlewares_refines_spec_witness:
  "getMiddlewares
     \<lparr>wildcard = ''w9k'',
      middlewares =
        [(''w9k'', Node [0::nat]
           (Some [(''x'', Node [1] None), (''bc'', Node [2] (Some [(''c'', Node [3] None)]))]))],
      routers = []\<rparr>
     ''abc'' = [0, 2, 3] \<and>
   \<not> prefix ''bc'' ''abc''"
  unfolding getMiddlewares_refines_spec
  by (simp add: spec_getMiddlewares_def object_keys_def is_array_index_def is_digit_def
      index_value_def sublist_code)

lemma add_all_append:
  "add_all (xs @ ys) c = (case add_all xs c of None \<Rightarrow> None | Some c' \<Rightarrow> add_all ys c')"
  by (induction xs arbitrary: c) (auto split: option.splits)

text \<open>Registering the middlewares \<open>ws\<close> for the wildcard scope in a new router.\<close>

lemma wildcard_registrations:
  "add_all (map (Pair w) ws) (new_composie w) =
     Some \<lparr>wildcard = w,
           middlewares = (if ws = [] then [] else [(w, Node ws (Some []))]),
           routers = []\<rparr>"
proof (induction ws rule: rev_induct)
  case Nil
  show ?case by (simp add: new_composie_def)
next
  case (snoc f ws)
  have "add_all (map (Pair w) (ws @ [f])) (new_composie w) =
      (case add_all (map (Pair w) ws) (new_composie w) of
         None \<Rightarrow> None | Some c' \<Rightarrow> add_all [(w, f)] c')"
    by (simp add: add_all_append)
  also have "\<dots> = add_all [(w, f)]
      \<lparr>wildcard = w, middlewares = (if ws = [] then [] else [(w, Node ws (Some []))]),
       routers = []\<rparr>"
    by (simp only: snoc option.case)
  also have "\<dots> = Some \<lparr>wildcard = w,
      middlewares = (if ws @ [f] = [] then [] else [(w, Node (ws @ [f]) (Some []))]),
      routers = []\<rparr>"
    by (simp add: addMiddleware_def)
  finally show ?case .
qed

text \<open>
  Claim C5. In a router whose wildcard key is neither \<open>a\<close> nor \<open>ab\<close>, after any
  wildcard registrations \<open>ws\<close>: inserting \<open>a\<close>, then \<open>ab\<close>, then \<open>a\<close> again succeeds and
  gives the same trie as inserting \<open>a\<close>, \<open>a\<close>, then \<open>ab\<close>; and \<open>getMiddlewares("abc")\<close> on
  it returns the wildcard's middlewares first, then the two middlewares registered
  under \<open>a\<close> in registration order, then the one registered under \<open>ab\<close>.
\<close>

theorem trie_insert_a_ab_a:
  assumes "w \<noteq> ''a''" and "w \<noteq> ''ab''"
  shows "\<exists>c. add_all (map (Pair w) ws @ [(''a'', f1), (''ab'', f2), (''a'', f3)])
                 (new_composie w) = Some c \<and>
              add_all (map (Pair w) ws @ [(''a'', f1), (''a'', f3), (''ab'', f2)])
                 (new_composie w) = Some c \<and>
              getMiddlewares c ''abc'' = ws @ [f1, f3, f2]"
proof -
  let ?c0 = "\<lparr>wildcard = w, middlewares = (if ws = [] then [] else [(w, Node ws (Some []))]),
              routers = []\<rparr>"
  let ?a = "(''a'', Node [f1, f3] (Some [(''ab'', Node [f2] None)]))"
  define c where "c = \<lparr>wildcard = w,
      middlewares = (if ws = [] then [?a] else [(w, Node ws (Some [?a]))]), routers = []\<rparr>"
  have r: "add_all (map (Pair w) ws @ xs) (new_composie w) = add_all xs ?c0" for xs
    by (simp add: add_all_append wildcard_registrations)
  have 1: "add_all [(''a'', f1), (''ab'', f2), (''a'', f3)] ?c0 = Some c"
    using assms by (cases "ws = []") (simp_all add: c_def trie_eval)
  have 2: "add_all [(''a'', f1), (''a'', f3), (''ab'', f2)] ?c0 = Some c"
    using assms by (cases "ws = []") (simp_all add: c_def trie_eval)
  have 3: "getMiddlewares c ''abc'' = ws @ [f1, f3, f2]"
    using assms by (cases "ws = []") (simp_all add: c_def trie_eval)
  from 1 2 3 show ?thesis unfolding r by blast
qed

text \<open>The theorem with the wildcard key \<open>w9k\<close> and one wildcard middleware.\<close>

theorem trie_insert_a_ab_a_witness:
  "''w9k'' \<noteq> ''a'' \<and> ''w9k'' \<noteq> ''ab'' \<and>
   add_all [(''w9k'', 0::nat), (''a'', 1), (''ab'', 2), (''a'', 3)] (new_composie ''w9k'') =
     Some \<lparr>wildcard = ''w9k'',
           middlewares =
             [(''w9k'', Node [0]
                (Some [(''a'', Node [1, 3] (Some [(''ab'', Node [2] None)]))]))],
           routers = []\<rparr> \<and>
   add_all [(''w9k'', 0::nat), (''a'', 1), (''a'', 3), (''ab'', 2)] (new_composie ''w9k'') =
     add_all [(''w9k'', 0::nat), (''a'', 1), (''ab'', 2), (''a'', 3)] (new_composie ''w9k'') \<and>
   getMiddlewares
     \<lparr>wildcard = ''w9k'',
      middlewares =
        [(''w9k'', Node [0::nat]
           (Some [(''a'', Node [1, 3] (Some [(''ab'', Node [2] None)]))]))],
      routers = []\<rparr> ''abc'' = [0, 1, 3, 2]"
proof -
  have h: "''w9k'' \<noteq> ''a''" "''w9k'' \<noteq> ''ab''" by simp_all
  have v: "add_all [(''w9k'', 0::nat), (''a'', 1), (''ab'', 2), (''a'', 3)]
      (new_composie ''w9k'') =
     Some \<lparr>wildcard = ''w9k'',
           middlewares =
             [(''w9k'', Node [0]
                (Some [(''a'', Node [1, 3] (Some [(''ab'', Node [2] None)]))]))],
           routers = []\<rparr>"
    by (simp add: trie_eval new_composie_def)
  from trie_insert_a_ab_a [OF h, of "[0::nat]" 1 2 3] v h show ?thesis by auto
qed

section \<open>The composition engine: properties\<close>

text \<open>
  The index never decreases, and after \<open>r(n)\<close> has run it is at least \<open>n\<close>: so a second
  call of the same continuation always meets \<open>n <= i\<close>.
\<close>

lemma exec_index_mono:
  assumes "\<And>st. fst st \<le> fst (snd (nxt st))"
  shows "fst st \<le> fst (snd (exec script nxt st))"
proof (induction script arbitrary: st)
  case (Next k)
  obtain r st' where n: "nxt st = (r, st')" by (cases "nxt st")
  have "fst st \<le> fst st'" using assms [of st] n by simp
  also have "fst st' \<le> fst (snd (exec (k r) nxt st'))"
    using Next by simp
  finally show ?case using n by simp
next
  case (Put c k)
  from Put [of "(fst st, c)"] show ?case by simp
qed simp_all

lemma dispatch_index:
  "fst st \<le> fst (snd (dispatch e s n st)) \<and> int n \<le> fst (snd (dispatch e s n st))"
proof (induction e s n st rule: dispatch.induct)
  case (1 e s n i c)
  show ?case
  proof (cases "int n \<le> i")
    case True
    then show ?thesis by (simp add: dispatch.simps)
  next
    case False
    show ?thesis
    proof (cases "if n = length e then s else if n < length e then Some (e ! n) else None")
      case None
      with False show ?thesis by (simp add: dispatch.simps)
    next
      case (Some handler)
      have m: "fst st \<le> fst (snd (dispatch e s (Suc n) st))" for st
        using 1 [OF False Some, of st] by simp
      have "int n \<le> fst (snd (exec handler (dispatch e s (Suc n)) (int n, c)))"
        using exec_index_mono [of "dispatch e s (Suc n)" "(int n, c)" handler, OF m] by simp
      with False Some show ?thesis by (simp add: dispatch.simps)
    qed
  qed
qed

lemma dispatch_again:
  "dispatch e s n (snd (dispatch e s n st)) =
     (Rejected next_called_twice, snd (dispatch e s n st))"
proof -
  obtain i c where st: "snd (dispatch e s n st) = (i, c)" by (cases "snd (dispatch e s n st)")
  have "int n \<le> i" using dispatch_index [of st e s n] st by simp
  then show ?thesis by (simp add: st dispatch.simps next_called_twice_def)
qed

text \<open>
  Claim C4, as amended. The index \<open>i\<close> starts at -1 (the composed function is the
  dispatch at 0 in state \<open>i = -1\<close>). Calling \<open>next(n)\<close> with \<open>n <= i\<close> fails at once: the
  call returns a promise rejected with the error "next() called multiple times", no
  middleware runs, and the index and the context are as before; nothing but that
  chain's own state exists for it to touch. This is what every further call of a
  continuation meets, in every chain and every state, once the first call has returned:
  after \<open>next(n)\<close> the index is at least \<open>n\<close>, and no call of a continuation lowers
  it. The rejection is the result of that call of \<open>next\<close> and goes to the middleware
  that made it: a middleware that returns this promise rejects with the same error, and
  one that ignores it and returns a value resolves with that value.
\<close>

theorem next_again_rejects:
  "composeMiddlewares e t s = dispatch e s 0 (- 1, t) \<and>
   (int n \<le> i \<longrightarrow>
      dispatch e s n (i, c) = (Rejected next_called_twice, (i, c)) \<and>
      exec (Next script_of) (dispatch e s n) (i, c) = (Rejected next_called_twice, (i, c)) \<and>
      exec (Next (\<lambda>r. Return v)) (dispatch e s n) (i, c) = (Resolved v, (i, c))) \<and>
   int n \<le> fst (snd (dispatch e s n st)) \<and>
   fst st \<le> fst (snd (dispatch e s m st)) \<and>
   dispatch e s n (snd (dispatch e s n st)) =
     (Rejected next_called_twice, snd (dispatch e s n st))"
  by (simp add: composeMiddlewares_def dispatch.simps [of e s n i c] next_called_twice_def
      script_of_def dispatch_again [unfolded next_called_twice_def] dispatch_index)

text \<open>
  The theorem at a single middleware that calls \<open>next\<close> and then calls it again: the
  second call is rejected; when the middleware returns its promise the composed function
  rejects, and when it returns \<open>null\<close> instead the composed function resolves.
\<close>

theorem next_again_rejects_witness:
  "int 1 \<le> 1 \<and>
   dispatch [Next (\<lambda>r. Next script_of)] None 1 (1, ()) = (Rejected next_called_twice, (1, ())) \<and>
   composeMiddlewares [Next (\<lambda>r. Next script_of)] () None =
     (Rejected next_called_twice, (1, ())) \<and>
   composeMiddlewares [Next (\<lambda>r. Next (\<lambda>r. Return VNull))] () None =
     (Resolved VNull, (1, ()))"
proof -
  have h: "int 1 \<le> 1" by simp
  have a: "dispatch [Next (\<lambda>r. Next script_of)] None 1 (1, ()) =
      (Rejected next_called_twice, (1, ()))"
    and b: "exec (Next script_of) (dispatch [Next (\<lambda>r. Next script_of)] None 1) (1, ()) =
       (Rejected next_called_twice, (1, ()))"
    using next_again_rejects [of "[Next (\<lambda>r. Next script_of)]" "()" None 1 1 "()"]
    by (simp_all add: script_of_def)
  have c: "exec (Next (\<lambda>r. Return VNull))
        (dispatch [Next (\<lambda>r. Next (\<lambda>r. Return VNull))] None 1) (1, ()) =
       (Resolved VNull, (1, ()))"
    using next_again_rejects
      [of "[Next (\<lambda>r. Next (\<lambda>r. Return VNull))]" "()" None 1 1 "()" VNull]
    by simp
  have "composeMiddlewares [Next (\<lambda>r. Next script_of)] () None =
      exec (Next script_of) (dispatch [Next (\<lambda>r. Next script_of)] None 1) (1, ())"
    by (simp add: composeMiddlewares_def dispatch.simps [of _ _ 0]
        dispatch.simps [of _ _ "Suc 0" 0])
  moreover
  have "composeMiddlewares [Next (\<lambda>r. Next (\<lambda>r. Return VNull))] () None =
      exec (Next (\<lambda>r. Return VNull))
        (dispatch [Next (\<lambda>r. Next (\<lambda>r. Return VNull))] None 1) (1, ())"
    by (simp add: composeMiddlewares_def dispatch.simps [of _ _ 0]
        dispatch.simps [of _ _ "Suc 0" 0])
  ultimately show ?thesis using a b c h by simp
qed

text \<open>
  Claim C4 as stated fails where it says that the failure rejects the enclosing run: a
  middleware that calls \<open>next\<close> twice and does not return the second promise sees the
  rejection (it returns \<open>true\<close> for it), and the composed function resolves; so does
  \<open>run\<close> of a router that holds only this middleware.
\<close>

theorem swallowed_rejection_run_resolves:
  "composeMiddlewares [swallow_second] () None = (Resolved (VBool True), (1, ())) \<and>
   add_all [(''job'', swallow_second)] (new_composie ''w9k'') =
     Some \<lparr>wildcard = ''w9k'', middlewares = [(''job'', Node [swallow_second] None)],
           routers = []\<rparr> \<and>
   run \<lparr>wildcard = ''w9k'', middlewares = [(''job'', Node [swallow_second] None)],
        routers = []\<rparr> ''job'' VNull = Resolved VUndefined"
  by (simp add: composeMiddlewares_def dispatch.simps swallow_second_def next_called_twice_def
      run_def trie_eval new_composie_def js_error_def)

end
